theory Spec2Isabelle
  imports Complex_Main "HOL-Library.Signed_Division"
begin

section \<open>Anderson acceleration: the accelerator of AndersonAcceleration.hpp\<close>

text \<open>
  The class \<^verbatim>\<open>AndersonAcceleration\<close> keeps a circular buffer of the last \<open>m\<close> increments of
  the iterate (\<^verbatim>\<open>prev_dG_\<close>) and of the residual (\<^verbatim>\<open>prev_dF_\<close>), a scale per column, and
  the Gram matrix \<^verbatim>\<open>M_\<close> of the residual increments. \<^verbatim>\<open>compute\<close> takes the value of the
  driving map at the current iterate and returns the next iterate.

  Conventions of the model.
  \<^item> \<^verbatim>\<open>Scalar\<close> (a \<^verbatim>\<open>double\<close>) is \<open>real\<close>: arithmetic is exact, so rounding, overflow to
    infinity and NaN are outside the model. Every statement below is about the algorithm
    in exact arithmetic.
  \<^item> The four \<^verbatim>\<open>int\<close> members are \<open>int\<close>; the counter \<^verbatim>\<open>iter_\<close> is not bounded by
    \<open>2^31\<close> (its overflow would be undefined behaviour of the C++ program).
  \<^item> A vector is the list of its entries; a matrix is the list of its columns (Eigen's
    column-major storage), so entry \<open>(i, j)\<close> of \<open>A\<close> is \<open>A ! j ! i\<close>.
  \<^item> The decomposition \<^verbatim>\<open>cod_\<close> is recomputed from its argument before each solve, so it
    is no part of the state; what it returns is a parameter \<open>solve\<close> of the model.
  \<^item> Failing assertions are values: \<open>Inl\<close> of a \<open>failure\<close>.
\<close>

subsection \<open>Vectors and matrices\<close>

type_synonym VectorX = "real list"
type_synonym MatrixXX = "real list list"

definition vadd :: "VectorX \<Rightarrow> VectorX \<Rightarrow> VectorX" where
  "vadd a b = map2 (+) a b"

definition vsub :: "VectorX \<Rightarrow> VectorX \<Rightarrow> VectorX" where
  "vsub a b = map2 (-) a b"

definition vneg :: "VectorX \<Rightarrow> VectorX" where
  "vneg a = map uminus a"

definition vdiv :: "VectorX \<Rightarrow> real \<Rightarrow> VectorX" where
  "vdiv a x = map (\<lambda>y. y / x) a"

text \<open>\<^verbatim>\<open>a.array() / b.array()\<close>: the quotient entry by entry.\<close>

definition cwise_div :: "VectorX \<Rightarrow> VectorX \<Rightarrow> VectorX" where
  "cwise_div a b = map2 (/) a b"

definition dot :: "VectorX \<Rightarrow> VectorX \<Rightarrow> real" where
  "dot a b = sum_list (map2 (*) a b)"

definition squaredNorm :: "VectorX \<Rightarrow> real" where
  "squaredNorm a = dot a a"

definition vnorm :: "VectorX \<Rightarrow> real" where
  "vnorm a = sqrt (squaredNorm a)"

text \<open>An \<open>r\<close> by \<open>c\<close> matrix: \<open>c\<close> columns of \<open>r\<close> entries each.\<close>

definition is_mat :: "nat \<Rightarrow> nat \<Rightarrow> MatrixXX \<Rightarrow> bool" where
  "is_mat r c A = (length A = c \<and> list_all (\<lambda>col. length col = r) A)"

text \<open>\<^verbatim>\<open>v.transpose() * A\<close>, as a list: entry \<open>j\<close> is the inner product of \<open>v\<close> with column \<open>j\<close>.\<close>

definition rowvec_times :: "VectorX \<Rightarrow> MatrixXX \<Rightarrow> VectorX" where
  "rowvec_times v A = map (\<lambda>col. dot v col) A"

text \<open>\<^verbatim>\<open>A.transpose() * v\<close>: entry \<open>j\<close> is the inner product of column \<open>j\<close> with \<open>v\<close>.\<close>

definition transpose_times :: "MatrixXX \<Rightarrow> VectorX \<Rightarrow> VectorX" where
  "transpose_times A v = map (\<lambda>col. dot col v) A"

text \<open>\<^verbatim>\<open>A * x\<close> for a matrix of \<open>r\<close> rows: entry \<open>i\<close> is \<open>\<Sum>j. A(i, j) * x(j)\<close>.\<close>

definition mat_times :: "nat \<Rightarrow> MatrixXX \<Rightarrow> VectorX \<Rightarrow> VectorX" where
  "mat_times r A x = map (\<lambda>i. \<Sum>j\<leftarrow>[0..<length A]. A ! j ! i * x ! j) [0..<r]"

text \<open>\<^verbatim>\<open>M.block(0, 0, k, k)\<close>: the leading \<open>k\<close> by \<open>k\<close> block.\<close>

definition leading_block :: "MatrixXX \<Rightarrow> nat \<Rightarrow> MatrixXX" where
  "leading_block M k = map (take k) (take k M)"

text \<open>\<^verbatim>\<open>M.block(c, 0, 1, k) = v.transpose()\<close>: the first \<open>k\<close> entries of row \<open>c\<close>.\<close>

definition set_row_head :: "MatrixXX \<Rightarrow> nat \<Rightarrow> nat \<Rightarrow> VectorX \<Rightarrow> MatrixXX" where
  "set_row_head M c k v = map (\<lambda>j. if j < k then (M ! j)[c := v ! j] else M ! j) [0..<length M]"

text \<open>\<^verbatim>\<open>M.block(0, c, k, 1) = v\<close>: the first \<open>k\<close> entries of column \<open>c\<close>.\<close>

definition set_col_head :: "MatrixXX \<Rightarrow> nat \<Rightarrow> nat \<Rightarrow> VectorX \<Rightarrow> MatrixXX" where
  "set_col_head M c k v = M[c := take k v @ drop k (M ! c)]"

text \<open>\<^verbatim>\<open>x.head(k) = v\<close> for a \<open>v\<close> of \<open>k\<close> entries.\<close>

definition set_head :: "VectorX \<Rightarrow> nat \<Rightarrow> VectorX \<Rightarrow> VectorX" where
  "set_head x k v = take k v @ drop k x"

subsection \<open>Failures, the library's parts, the state\<close>

text \<open>
  \<open>Assertion_failed\<close> is an \<^verbatim>\<open>assert\<close> of the class itself. \<open>Eigen_assertion_failed\<close> is
  the assertion inside Eigen's \<^verbatim>\<open>Map\<close> constructor and \<^verbatim>\<open>resize\<close>, which refuse a negative
  size (\<^verbatim>\<open>eigen_assert(vecSize >= 0)\<close>); it is compiled in and out together with
  \<^verbatim>\<open>assert\<close>. Eigen's other assertions (a column index within the matrix, operands of the
  same size) are no branches of the model: \<open>valid_state\<close> below implies that every such
  access is in range, and every state the interface can reach after \<^verbatim>\<open>init\<close> is valid.
\<close>

datatype failure = Assertion_failed | Eigen_assertion_failed

text \<open>
  \<^verbatim>\<open>Eigen::Map<const VectorX>(p, n)\<close>: the \<open>n\<close> scalars at \<open>p\<close>. The caller's buffer is the
  list \<open>p\<close>; it has to hold \<open>n\<close> scalars (a shorter one would be read past its end).
\<close>

definition Eigen_Map :: "VectorX \<Rightarrow> int \<Rightarrow> failure + VectorX" where
  "Eigen_Map p n = (if n < 0 then Inl Eigen_assertion_failed else Inr (take (nat n) p))"

text \<open>
  \<^verbatim>\<open>cod_.compute(A); cod_.solve(b)\<close>: a vector with one entry per column of \<open>A\<close>. The
  entries are what the complete orthogonal decomposition of Eigen finds; the model takes
  them from the parameter \<open>solve\<close>.
\<close>

type_synonym solver = "MatrixXX \<Rightarrow> VectorX \<Rightarrow> nat \<Rightarrow> real"

definition cod_solve :: "solver \<Rightarrow> MatrixXX \<Rightarrow> VectorX \<Rightarrow> VectorX" where
  "cod_solve solve A b = map (solve A b) [0..<length A]"

record AndersonAcceleration =
  current_u :: VectorX
  current_F :: VectorX
  prev_dG :: MatrixXX
  prev_dF :: MatrixXX
  M_gram :: MatrixXX
  theta :: VectorX
  dF_scale :: VectorX
  m_win :: int
  dim_u :: int
  iter :: int
  col_idx :: int

text \<open>
  The members are written without their trailing underscore; \<^verbatim>\<open>m_\<close>, \<^verbatim>\<open>dim_\<close> and
  \<^verbatim>\<open>M_\<close> are \<open>m_win\<close>, \<open>dim_u\<close> and \<open>M_gram\<close>.

  The constructor: the four integers are \<open>-1\<close>, the vectors and matrices are empty.
\<close>

definition AndersonAcceleration_new :: AndersonAcceleration where
  "AndersonAcceleration_new =
     \<lparr>current_u = [], current_F = [], prev_dG = [], prev_dF = [], M_gram = [],
      theta = [], dF_scale = [], m_win = - 1, dim_u = - 1, iter = - 1, col_idx = - 1\<rparr>"

subsection \<open>replace\<close>

definition replace :: "AndersonAcceleration \<Rightarrow> VectorX \<Rightarrow> failure + AndersonAcceleration" where
  "replace s u =
     (case Eigen_Map u (dim_u s) of
        Inl e \<Rightarrow> Inl e
      | Inr U \<Rightarrow> Inr (s\<lparr>current_u := U\<rparr>))"

subsection \<open>compute\<close>

definition eps :: real where
  "eps = 1 / 10 ^ 14"

text \<open>\<^verbatim>\<open>int m_k = std::min(m_, iter_)\<close>.\<close>

definition m_k :: "AndersonAcceleration \<Rightarrow> int" where
  "m_k s = min (m_win s) (iter s)"

text \<open>
  Lines 67 to 73: the column at the write index becomes the increment, its norm (at least
  \<open>eps\<close>) is stored and the residual increment is divided by it.
\<close>

definition finalize :: "AndersonAcceleration \<Rightarrow> VectorX \<Rightarrow> AndersonAcceleration" where
  "finalize s G =
     (let c = nat (col_idx s);
          dF = (prev_dF s)[c := vadd (prev_dF s ! c) (current_F s)];
          dG = (prev_dG s)[c := vadd (prev_dG s ! c) G];
          scale = max eps (vnorm (dF ! c))
      in s\<lparr>prev_dF := dF[c := vdiv (dF ! c) scale],
            prev_dG := dG,
            dF_scale := (dF_scale s)[c := scale]\<rparr>)"

text \<open>Lines 77 to 100: the mixing coefficients, and the Gram matrix on the way.\<close>

definition solve_theta :: "solver \<Rightarrow> AndersonAcceleration \<Rightarrow> AndersonAcceleration" where
  "solve_theta solve s =
     (let c = nat (col_idx s) in
      if m_k s = 1 then
        let dF_sqrnorm = squaredNorm (prev_dF s ! c);
            dF_norm = sqrt dF_sqrnorm;
            theta0 = (theta s)[0 := 0]
        in s\<lparr>M_gram := (M_gram s)[0 := (M_gram s ! 0)[0 := dF_sqrnorm]],
              theta := (if dF_norm > eps
                         then theta0[0 := dot (vdiv (prev_dF s ! c) dF_norm)
                                              (vdiv (current_F s) dF_norm)]
                         else theta0)\<rparr>
      else
        let k = nat (m_k s);
            new_inner_prod = rowvec_times (prev_dF s ! c) (take k (prev_dF s));
            M' = set_col_head (set_row_head (M_gram s) c k new_inner_prod) c k new_inner_prod
        in s\<lparr>M_gram := M',
              theta := set_head (theta s) k
                          (cod_solve solve (leading_block M' k)
                             (transpose_times (take k (prev_dF s)) (current_F s)))\<rparr>)"

text \<open>Lines 103 to 107: the new iterate.\<close>

definition mix :: "AndersonAcceleration \<Rightarrow> VectorX \<Rightarrow> AndersonAcceleration" where
  "mix s G =
     (let k = nat (m_k s)
      in s\<lparr>current_u :=
              vsub G (mat_times (nat (dim_u s)) (take k (prev_dG s))
                        (cwise_div (take k (theta s)) (take k (dF_scale s))))\<rparr>)"

text \<open>
  Lines 109 to 111: the write index moves on (\<^verbatim>\<open>%\<close> of C++ truncates, which is \<open>smod\<close>)
  and the column there is seeded for the next call.
\<close>

definition advance :: "AndersonAcceleration \<Rightarrow> VectorX \<Rightarrow> AndersonAcceleration" where
  "advance s G =
     (let c' = (col_idx s + 1) smod m_win s
      in s\<lparr>col_idx := c',
            prev_dF := (prev_dF s)[nat c' := vneg (current_F s)],
            prev_dG := (prev_dG s)[nat c' := vneg G]\<rparr>)"

text \<open>
  \<^verbatim>\<open>compute\<close> returns a reference to \<^verbatim>\<open>current_u_\<close>: the vector returned is
  \<open>current_u\<close> of the state returned here.
\<close>

definition compute :: "solver \<Rightarrow> AndersonAcceleration \<Rightarrow> VectorX \<Rightarrow> failure + AndersonAcceleration" where
  "compute solve s g =
     (if \<not> iter s \<ge> 0 then Inl Assertion_failed
      else case Eigen_Map g (dim_u s) of
        Inl e \<Rightarrow> Inl e
      | Inr G \<Rightarrow>
          let s1 = s\<lparr>current_F := vsub G (current_u s)\<rparr>;
              s2 = (if iter s1 = 0
                    then s1\<lparr>prev_dF := (prev_dF s1)[0 := vneg (current_F s1)],
                            prev_dG := (prev_dG s1)[0 := vneg G],
                            current_u := G\<rparr>
                    else advance (mix (solve_theta solve (finalize s1 G)) G) G)
          in Inr (s2\<lparr>iter := iter s2 + 1\<rparr>))"

subsection \<open>init\<close>

text \<open>
  \<^verbatim>\<open>resize\<close> of Eigen keeps the storage when the size does not change and allocates
  storage that is not initialised otherwise. \<open>fresh\<close> is what new storage holds: any
  values at all.
\<close>

definition resize_vec :: "nat \<Rightarrow> (nat \<Rightarrow> real) \<Rightarrow> VectorX \<Rightarrow> VectorX" where
  "resize_vec n fresh old = (if length old = n then old else map fresh [0..<n])"

definition resize_mat :: "nat \<Rightarrow> nat \<Rightarrow> (nat \<Rightarrow> nat \<Rightarrow> real) \<Rightarrow> MatrixXX \<Rightarrow> MatrixXX" where
  "resize_mat r c fresh old =
     (if is_mat r c old then old else map (\<lambda>j. map (\<lambda>i. fresh i j) [0..<r]) [0..<c])"

text \<open>
  What the allocator hands out for the six buffers that \<^verbatim>\<open>init\<close> only resizes. A negative
  \<open>d\<close> fails the assertion of Eigen on a negative size, in \<^verbatim>\<open>resize\<close> already.
\<close>

record uninitialised =
  fresh_F :: "nat \<Rightarrow> real"
  fresh_dG :: "nat \<Rightarrow> nat \<Rightarrow> real"
  fresh_dF :: "nat \<Rightarrow> nat \<Rightarrow> real"
  fresh_M :: "nat \<Rightarrow> nat \<Rightarrow> real"
  fresh_theta :: "nat \<Rightarrow> real"
  fresh_scale :: "nat \<Rightarrow> real"

definition init ::
  "uninitialised \<Rightarrow> AndersonAcceleration \<Rightarrow> int \<Rightarrow> int \<Rightarrow> VectorX \<Rightarrow> failure + AndersonAcceleration" where
  "init mem s m d u0 =
     (if \<not> m > 0 then Inl Assertion_failed
      else case Eigen_Map u0 d of
        Inl e \<Rightarrow> Inl e
      | Inr U0 \<Rightarrow>
          Inr \<lparr>current_u = U0,
               current_F = resize_vec (nat d) (fresh_F mem) (current_F s),
               prev_dG = resize_mat (nat d) (nat m) (fresh_dG mem) (prev_dG s),
               prev_dF = resize_mat (nat d) (nat m) (fresh_dF mem) (prev_dF s),
               M_gram = resize_mat (nat m) (nat m) (fresh_M mem) (M_gram s),
               theta = resize_vec (nat m) (fresh_theta mem) (theta s),
               dF_scale = resize_vec (nat m) (fresh_scale mem) (dF_scale s),
               m_win = m, dim_u = d, iter = 0, col_idx = 0\<rparr>)"

subsection \<open>Valid states and the states the interface reaches\<close>

text \<open>
  The sizes \<^verbatim>\<open>init\<close> sets up, and the place of the write index: \<open>0\<close> before the first
  call, \<open>(iter - 1) mod m\<close> afterwards.
\<close>

definition valid_state :: "AndersonAcceleration \<Rightarrow> bool" where
  "valid_state s =
     (0 < m_win s \<and> 0 \<le> dim_u s \<and> 0 \<le> iter s \<and>
      length (current_u s) = nat (dim_u s) \<and>
      is_mat (nat (dim_u s)) (nat (m_win s)) (prev_dG s) \<and>
      is_mat (nat (dim_u s)) (nat (m_win s)) (prev_dF s) \<and>
      is_mat (nat (m_win s)) (nat (m_win s)) (M_gram s) \<and>
      length (theta s) = nat (m_win s) \<and>
      length (dF_scale s) = nat (m_win s) \<and>
      col_idx s = (if iter s = 0 then 0 else (iter s - 1) mod m_win s))"

text \<open>The four stages of a call after the first, in the order of the source.\<close>

definition later_call :: "solver \<Rightarrow> AndersonAcceleration \<Rightarrow> VectorX \<Rightarrow> AndersonAcceleration" where
  "later_call solve s g =
     advance (mix (solve_theta solve (finalize (s\<lparr>current_F := vsub g (current_u s)\<rparr>) g)) g) g"

text \<open>
  The state at line 100 of a call after the first: the history column is finished and the
  Gram matrix and \<open>theta\<close> are set; the mixing is still to come.
\<close>

definition at_solve :: "solver \<Rightarrow> AndersonAcceleration \<Rightarrow> VectorX \<Rightarrow> AndersonAcceleration" where
  "at_solve solve s g = solve_theta solve (finalize (s\<lparr>current_F := vsub g (current_u s)\<rparr>) g)"

text \<open>
  The states of an accelerator after \<^verbatim>\<open>init\<close>: \<^verbatim>\<open>init\<close> on an object in any state at
  all, then any number of \<^verbatim>\<open>compute\<close> and \<^verbatim>\<open>replace\<close> calls, each with a buffer of
  \<^verbatim>\<open>dim_\<close> scalars.
\<close>

inductive initialised :: "solver \<Rightarrow> AndersonAcceleration \<Rightarrow> bool" for solve :: solver where
  after_init:
    "init mem s0 m d u0 = Inr s \<Longrightarrow> length u0 = nat d \<Longrightarrow> initialised solve s"
| after_compute:
    "initialised solve s \<Longrightarrow> length g = nat (dim_u s) \<Longrightarrow> compute solve s g = Inr s'
     \<Longrightarrow> initialised solve s'"
| after_replace:
    "initialised solve s \<Longrightarrow> length u = nat (dim_u s) \<Longrightarrow> replace s u = Inr s'
     \<Longrightarrow> initialised solve s'"

text \<open>
  Two properties of the states reached after \<^verbatim>\<open>init\<close>, for the columns of the window
  other than the one at the write index, which the next call finishes: their scales are
  at least \<open>eps\<close>, and the Gram matrix holds their inner products.
\<close>

definition scales_ok :: "AndersonAcceleration \<Rightarrow> bool" where
  "scales_ok s =
     (\<forall>j < nat (m_k s). j \<noteq> nat (col_idx s) \<longrightarrow> eps \<le> dF_scale s ! j)"


subsection \<open>The window\<close>

text \<open>
  Two states that are the same up to the slots beyond the window: the integers, the current
  iterate, the leading \<open>m_k\<close> columns of the histories, the leading \<open>m_k\<close> scales and the
  leading \<open>m_k\<close> by \<open>m_k\<close> block of the Gram matrix agree. Nothing is asked of the columns,
  scales and Gram entries at an index \<open>m_k\<close> or beyond, nor of \<open>theta\<close> and \<open>current_F\<close>, which
  a call writes before it reads them.
\<close>

definition same_window :: "AndersonAcceleration \<Rightarrow> AndersonAcceleration \<Rightarrow> bool" where
  "same_window s s' =
     (m_win s = m_win s' \<and> dim_u s = dim_u s' \<and> iter s = iter s' \<and>
      col_idx s = col_idx s' \<and> current_u s = current_u s' \<and>
      (\<forall>j < nat (m_k s). prev_dF s ! j = prev_dF s' ! j \<and> prev_dG s ! j = prev_dG s' ! j \<and>
                          dF_scale s ! j = dF_scale s' ! j) \<and>
      (\<forall>i < nat (m_k s). \<forall>j < nat (m_k s). M_gram s ! j ! i = M_gram s' ! j ! i))"

text \<open>
  The same, but for the scale and the row and column of the Gram matrix at the write
  index, which the next call writes before it reads them. This is what a call hands on to
  the next one.
\<close>

definition window_agree :: "AndersonAcceleration \<Rightarrow> AndersonAcceleration \<Rightarrow> bool" where
  "window_agree s s' =
     (m_win s = m_win s' \<and> dim_u s = dim_u s' \<and> iter s = iter s' \<and>
      col_idx s = col_idx s' \<and> current_u s = current_u s' \<and>
      (\<forall>j < nat (m_k s). prev_dF s ! j = prev_dF s' ! j \<and> prev_dG s ! j = prev_dG s' ! j) \<and>
      (\<forall>j < nat (m_k s). j \<noteq> nat (col_idx s) \<longrightarrow> dF_scale s ! j = dF_scale s' ! j) \<and>
      (\<forall>i < nat (m_k s). \<forall>j < nat (m_k s).
          i \<noteq> nat (col_idx s) \<and> j \<noteq> nat (col_idx s) \<longrightarrow>
          M_gram s ! j ! i = M_gram s' ! j ! i))"

subsection \<open>Sequences of calls\<close>

text \<open>
  A sequence of calls on one accelerator, and the vectors its \<^verbatim>\<open>compute\<close> calls return.
\<close>

datatype call = Compute VectorX | Replace VectorX

fun run :: "solver \<Rightarrow> AndersonAcceleration \<Rightarrow> call list \<Rightarrow> failure + VectorX list" where
  "run solve s [] = Inr []"
| "run solve s (Compute g # cs) =
     (case compute solve s g of
        Inl e \<Rightarrow> Inl e
      | Inr s' \<Rightarrow> (case run solve s' cs of
                     Inl e \<Rightarrow> Inl e
                   | Inr out \<Rightarrow> Inr (current_u s' # out)))"
| "run solve s (Replace u # cs) =
     (case replace s u of
        Inl e \<Rightarrow> Inl e
      | Inr s' \<Rightarrow> run solve s' cs)"

fun argument :: "call \<Rightarrow> VectorX" where
  "argument (Compute g) = g"
| "argument (Replace u) = u"

text \<open>Every call of the sequence comes with a buffer of \<open>d\<close> scalars.\<close>

definition calls_ok :: "nat \<Rightarrow> call list \<Rightarrow> bool" where
  "calls_ok d cs = list_all (\<lambda>c. length (argument c) = d) cs"

text \<open>
  The caller's loop of the fixed-point iteration. In each step the caller may first put an
  iterate of its own in place with \<^verbatim>\<open>replace\<close> (\<open>Some u\<close>) or not (\<open>None\<close>); then the driving
  map \<open>G\<close> is evaluated at the current iterate and the value is handed to \<^verbatim>\<open>compute\<close>.
\<close>

fun drive ::
  "solver \<Rightarrow> (VectorX \<Rightarrow> VectorX) \<Rightarrow> VectorX option list \<Rightarrow> AndersonAcceleration
   \<Rightarrow> failure + AndersonAcceleration"
where
  "drive solve G [] s = Inr s"
| "drive solve G (r # rs) s =
     (case (case r of None \<Rightarrow> Inr s | Some u \<Rightarrow> replace s u) of
        Inl e \<Rightarrow> Inl e
      | Inr s1 \<Rightarrow>
          (case compute solve s1 (G (current_u s1)) of
             Inl e \<Rightarrow> Inl e
           | Inr s2 \<Rightarrow> drive solve G rs s2))"

text \<open>Every iterate the caller puts in place has \<open>d\<close> entries.\<close>

definition steps_ok :: "nat \<Rightarrow> VectorX option list \<Rightarrow> bool" where
  "steps_ok d rs = list_all (\<lambda>r. case r of None \<Rightarrow> True | Some u \<Rightarrow> length u = d) rs"

subsection \<open>The identity as driving map\<close>

text \<open>A vector of zeros, and a state whose window of \<open>prev_dF\<close> holds zeros only.\<close>

definition is_zero :: "VectorX \<Rightarrow> bool" where
  "is_zero v = (\<forall>x \<in> set v. x = 0)"

definition residuals_zero :: "AndersonAcceleration \<Rightarrow> bool" where
  "residuals_zero s = (valid_state s \<and> (\<forall>j < nat (m_k s). is_zero (prev_dF s ! j)))"

text \<open>
  A solver that answers a zero right-hand side with the zero vector, as a solver of a
  linear least-squares problem does.
\<close>

definition zero_for_zero :: "solver \<Rightarrow> bool" where
  "zero_for_zero solve = (\<forall>A b j. is_zero b \<longrightarrow> solve A b j = 0)"

text \<open>
  What the loop keeps when the driving map is the identity and the iteration started at
  \<open>u0\<close>: the iterate is \<open>u0\<close>, the column of \<open>prev_dG\<close> at the write index is the seed \<open>-u0\<close>
  and the other columns of the window are zero.
\<close>

definition at_rest :: "VectorX \<Rightarrow> AndersonAcceleration \<Rightarrow> bool" where
  "at_rest u0 s =
     (valid_state s \<and> current_u s = u0 \<and>
      (0 < iter s \<longrightarrow> prev_dG s ! nat (col_idx s) = vneg u0) \<and>
      (\<forall>j < nat (m_k s). j \<noteq> nat (col_idx s) \<longrightarrow>
         (\<forall>i < length u0. prev_dG s ! j ! i = 0)))"

subsection \<open>Concrete accelerators\<close>

text \<open>
  New storage that holds \<open>7\<close> everywhere and a solver that returns the zero vector. With
  them, \<^verbatim>\<open>init(2, 1, {0})\<close> on a new object gives \<open>example_start\<close>; \<^verbatim>\<open>compute({1})\<close> then gives
  \<open>example_second\<close> and \<^verbatim>\<open>compute({3})\<close> after it \<open>example_third\<close>.
\<close>

definition example_memory :: uninitialised where
  "example_memory =
     \<lparr>fresh_F = (\<lambda>i. 7), fresh_dG = (\<lambda>i j. 7), fresh_dF = (\<lambda>i j. 7),
      fresh_M = (\<lambda>i j. 7), fresh_theta = (\<lambda>i. 7), fresh_scale = (\<lambda>i. 7)\<rparr>"

definition example_solver :: solver where
  "example_solver A b j = 0"

definition example_start :: AndersonAcceleration where
  "example_start =
     \<lparr>current_u = [0], current_F = [7], prev_dG = [[7], [7]], prev_dF = [[7], [7]],
      M_gram = [[7, 7], [7, 7]], theta = [7, 7], dF_scale = [7, 7],
      m_win = 2, dim_u = 1, iter = 0, col_idx = 0\<rparr>"

definition example_second :: AndersonAcceleration where
  "example_second =
     \<lparr>current_u = [1], current_F = [1], prev_dG = [[- 1], [7]], prev_dF = [[- 1], [7]],
      M_gram = [[7, 7], [7, 7]], theta = [7, 7], dF_scale = [7, 7],
      m_win = 2, dim_u = 1, iter = 1, col_idx = 0\<rparr>"

definition example_third :: AndersonAcceleration where
  "example_third =
     \<lparr>current_u = [- 1], current_F = [2], prev_dG = [[2], [- 3]], prev_dF = [[1], [- 2]],
      M_gram = [[1, 7], [7, 7]], theta = [2, 7], dF_scale = [1, 7],
      m_win = 2, dim_u = 1, iter = 2, col_idx = 1\<rparr>"

text \<open>The state \<open>example_second\<close> with other values in the slots beyond its window.\<close>

definition example_second_corrupted :: AndersonAcceleration where
  "example_second_corrupted =
     \<lparr>current_u = [1], current_F = [0], prev_dG = [[- 1], [99]], prev_dF = [[- 1], [42]],
      M_gram = [[7, 1], [2, 3]], theta = [0, 8], dF_scale = [7, 5],
      m_win = 2, dim_u = 1, iter = 1, col_idx = 0\<rparr>"

text \<open>
  An accelerator with a single history column, \<^verbatim>\<open>init(1, 1, {0})\<close>, after
  \<^verbatim>\<open>compute({1})\<close> and after \<^verbatim>\<open>compute({1}); compute({3})\<close>.
\<close>

definition one_slot_start :: AndersonAcceleration where
  "one_slot_start =
     \<lparr>current_u = [0], current_F = [7], prev_dG = [[7]], prev_dF = [[7]],
      M_gram = [[7]], theta = [7], dF_scale = [7],
      m_win = 1, dim_u = 1, iter = 0, col_idx = 0\<rparr>"

definition one_slot_second :: AndersonAcceleration where
  "one_slot_second =
     \<lparr>current_u = [1], current_F = [1], prev_dG = [[- 1]], prev_dF = [[- 1]],
      M_gram = [[7]], theta = [7], dF_scale = [7],
      m_win = 1, dim_u = 1, iter = 1, col_idx = 0\<rparr>"


text \<open>
  The single-column accelerator \<open>one_slot_second\<close> after \<^verbatim>\<open>compute({2 + 1e-15})\<close>: the
  residual increment of that call is \<open>{1e-15}\<close>, of norm below \<open>eps\<close>.
\<close>

definition one_slot_tiny :: AndersonAcceleration where
  "one_slot_tiny =
     \<lparr>current_u = [- (10 ^ 15)], current_F = [1 + 1 / 10 ^ 15],
      prev_dG = [[- (2 + 1 / 10 ^ 15)]], prev_dF = [[- (1 + 1 / 10 ^ 15)]],
      M_gram = [[1 / 100]], theta = [10 + 1 / 10 ^ 14], dF_scale = [1 / 10 ^ 14],
      m_win = 1, dim_u = 1, iter = 2, col_idx = 0\<rparr>"

section \<open>Shapes\<close>


lemma smod_nonneg: "0 \<le> a \<Longrightarrow> 0 < b \<Longrightarrow> (a::int) smod b = a mod b"
  by (simp add: smod_int_alt_def sgn_if)

lemma length_vadd [simp]: "length (vadd a b) = min (length a) (length b)"
  by (simp add: vadd_def)

lemma length_vsub [simp]: "length (vsub a b) = min (length a) (length b)"
  by (simp add: vsub_def)

lemma length_vneg [simp]: "length (vneg a) = length a"
  by (simp add: vneg_def)

lemma length_vdiv [simp]: "length (vdiv a x) = length a"
  by (simp add: vdiv_def)

lemma length_mat_times [simp]: "length (mat_times r A x) = r"
  by (simp add: mat_times_def)

lemma length_cod_solve [simp]: "length (cod_solve solve A b) = length A"
  by (simp add: cod_solve_def)

lemma length_rowvec_times [simp]: "length (rowvec_times v A) = length A"
  by (simp add: rowvec_times_def)

lemma length_transpose_times [simp]: "length (transpose_times A v) = length A"
  by (simp add: transpose_times_def)

lemma is_mat_length: "is_mat r c A \<Longrightarrow> length A = c"
  by (simp add: is_mat_def)

lemma is_mat_col: "is_mat r c A \<Longrightarrow> j < c \<Longrightarrow> length (A ! j) = r"
  by (simp add: is_mat_def list_all_length)

lemma is_mat_update: "is_mat r c A \<Longrightarrow> length v = r \<Longrightarrow> is_mat r c (A[j := v])"
  using set_update_subset_insert [of A j v] by (auto simp: is_mat_def list_all_iff)

lemma is_mat_set_row_head: "is_mat r c A \<Longrightarrow> is_mat r c (set_row_head A i k v)"
  by (auto simp: is_mat_def list_all_length set_row_head_def)

lemma is_mat_set_col_head:
  "is_mat r c A \<Longrightarrow> k \<le> r \<Longrightarrow> length v = k \<Longrightarrow> is_mat r c (set_col_head A j k v)"
proof (cases "j < c")
  case True
  assume "is_mat r c A" "k \<le> r" "length v = k"
  with True show ?thesis
    unfolding set_col_head_def by (intro is_mat_update) (simp_all add: is_mat_col)
next
  case False
  assume "is_mat r c A"
  with False show ?thesis
    by (auto simp add: set_col_head_def is_mat_def list_update_beyond)
qed

lemma is_mat_resize [simp]: "is_mat r c (resize_mat r c fresh old)"
  by (simp add: resize_mat_def) (simp add: is_mat_def list_all_length)

lemma length_resize_vec [simp]: "length (resize_vec n fresh old) = n"
  by (simp add: resize_vec_def)

lemma length_set_head: "k \<le> length x \<Longrightarrow> length v = k \<Longrightarrow> length (set_head x k v) = length x"
  by (simp add: set_head_def)

lemma valid_init:
  assumes "init mem s0 m d u0 = Inr s" and "length u0 = nat d"
  shows "valid_state s"
  using assms
  by (auto simp: init_def Eigen_Map_def valid_state_def split: if_splits)

lemma finalize_fields [simp]:
  "m_win (finalize s G) = m_win s" "dim_u (finalize s G) = dim_u s"
  "iter (finalize s G) = iter s" "col_idx (finalize s G) = col_idx s"
  "current_u (finalize s G) = current_u s" "current_F (finalize s G) = current_F s"
  "M_gram (finalize s G) = M_gram s" "theta (finalize s G) = theta s"
  by (simp_all add: finalize_def Let_def)

lemma solve_theta_fields [simp]:
  "m_win (solve_theta solve s) = m_win s" "dim_u (solve_theta solve s) = dim_u s"
  "iter (solve_theta solve s) = iter s" "col_idx (solve_theta solve s) = col_idx s"
  "current_u (solve_theta solve s) = current_u s" "current_F (solve_theta solve s) = current_F s"
  "prev_dG (solve_theta solve s) = prev_dG s" "prev_dF (solve_theta solve s) = prev_dF s"
  "dF_scale (solve_theta solve s) = dF_scale s"
  by (simp_all add: solve_theta_def Let_def)

lemma mix_fields [simp]:
  "m_win (mix s G) = m_win s" "dim_u (mix s G) = dim_u s"
  "iter (mix s G) = iter s" "col_idx (mix s G) = col_idx s"
  "current_F (mix s G) = current_F s"
  "prev_dG (mix s G) = prev_dG s" "prev_dF (mix s G) = prev_dF s"
  "M_gram (mix s G) = M_gram s" "theta (mix s G) = theta s"
  "dF_scale (mix s G) = dF_scale s"
  by (simp_all add: mix_def Let_def)

lemma advance_fields [simp]:
  "m_win (advance s G) = m_win s" "dim_u (advance s G) = dim_u s"
  "iter (advance s G) = iter s"
  "current_u (advance s G) = current_u s" "current_F (advance s G) = current_F s"
  "M_gram (advance s G) = M_gram s" "theta (advance s G) = theta s"
  "dF_scale (advance s G) = dF_scale s"
  by (simp_all add: advance_def Let_def)

lemma m_k_fields [simp]:
  "m_k (finalize s G) = m_k s" "m_k (solve_theta solve s) = m_k s"
  "m_k (mix s G) = m_k s" "m_k (advance s G) = m_k s"
  "m_k (s\<lparr>current_F := F\<rparr>) = m_k s"
  by (simp_all add: m_k_def)

lemma compute_first:
  assumes "iter s = 0" "0 \<le> dim_u s" "length g = nat (dim_u s)"
  shows "compute solve s g =
    Inr (s\<lparr>current_F := vsub g (current_u s),
           prev_dF := (prev_dF s)[0 := vneg (vsub g (current_u s))],
           prev_dG := (prev_dG s)[0 := vneg g],
           current_u := g, iter := 1\<rparr>)"
  using assms by (simp add: compute_def Eigen_Map_def Let_def)

lemma compute_later:
  assumes "0 < iter s" "0 \<le> dim_u s" "length g = nat (dim_u s)"
  shows "compute solve s g = Inr ((later_call solve s g)\<lparr>iter := iter s + 1\<rparr>)"
  using assms by (simp add: compute_def Eigen_Map_def Let_def later_call_def)


lemma valid_col_idx: "valid_state s \<Longrightarrow> 0 \<le> col_idx s \<and> col_idx s < m_win s"
  by (auto simp: valid_state_def)

lemma valid_col_idx_m_k:
  assumes "valid_state s" "0 < iter s"
  shows "col_idx s < m_k s"
proof (cases "iter s \<le> m_win s")
  case True
  with assms have "(iter s - 1) mod m_win s = iter s - 1" by (simp add: valid_state_def)
  with assms True show ?thesis by (simp add: valid_state_def m_k_def)
next
  case False
  with assms show ?thesis by (simp add: valid_state_def m_k_def)
qed

lemma valid_m_k: "valid_state s \<Longrightarrow> 0 < iter s \<Longrightarrow> 1 \<le> m_k s \<and> m_k s \<le> m_win s"
  by (auto simp: valid_state_def m_k_def)

lemma length_leading_block: "k \<le> length M \<Longrightarrow> length (leading_block M k) = k"
  by (simp add: leading_block_def)

lemma shape_finalize:
  assumes "valid_state s" "length G = nat (dim_u s)" "length (current_F s) = nat (dim_u s)"
  shows "is_mat (nat (dim_u s)) (nat (m_win s)) (prev_dF (finalize s G))"
    and "is_mat (nat (dim_u s)) (nat (m_win s)) (prev_dG (finalize s G))"
    and "length (dF_scale (finalize s G)) = nat (m_win s)"
proof -
  have c: "nat (col_idx s) < nat (m_win s)"
    using valid_col_idx [OF assms(1)] by simp
  have dF: "is_mat (nat (dim_u s)) (nat (m_win s)) (prev_dF s)"
    and dG: "is_mat (nat (dim_u s)) (nat (m_win s)) (prev_dG s)"
    using assms(1) by (simp_all add: valid_state_def)
  show "is_mat (nat (dim_u s)) (nat (m_win s)) (prev_dF (finalize s G))"
    using c dF assms(3)
    by (simp add: finalize_def Let_def is_mat_update is_mat_col is_mat_length)
  show "is_mat (nat (dim_u s)) (nat (m_win s)) (prev_dG (finalize s G))"
    using c dG assms(2)
    by (simp add: finalize_def Let_def is_mat_update is_mat_col)
  show "length (dF_scale (finalize s G)) = nat (m_win s)"
    using assms(1) by (simp add: finalize_def Let_def valid_state_def)
qed

lemma shape_solve_theta:
  assumes "0 < m_win s" "1 \<le> m_k s" "m_k s \<le> m_win s"
    and "is_mat (nat (m_win s)) (nat (m_win s)) (M_gram s)"
    and "length (theta s) = nat (m_win s)"
    and "length (prev_dF s) = nat (m_win s)"
  shows "is_mat (nat (m_win s)) (nat (m_win s)) (M_gram (solve_theta solve s))"
    and "length (theta (solve_theta solve s)) = nat (m_win s)"
proof -
  let ?k = "nat (m_k s)"
  have k: "?k \<le> nat (m_win s)" using assms by simp
  show "is_mat (nat (m_win s)) (nat (m_win s)) (M_gram (solve_theta solve s))"
  proof (cases "m_k s = 1")
    case True
    have "length (M_gram s ! 0) = nat (m_win s)"
      using assms(1,4) by (simp add: is_mat_col)
    with True assms(4) show ?thesis
      by (simp add: solve_theta_def Let_def is_mat_update)
  next
    case False
    with assms(4,6) k show ?thesis
      by (simp add: solve_theta_def Let_def is_mat_set_col_head is_mat_set_row_head)
  qed
  show "length (theta (solve_theta solve s)) = nat (m_win s)"
  proof (cases "m_k s = 1")
    case True
    with assms(5) show ?thesis by (simp add: solve_theta_def Let_def)
  next
    case False
    have "length (set_col_head (set_row_head (M_gram s) c ?k v) c ?k v) = nat (m_win s)" for c v
      using assms(4) by (simp add: set_col_head_def set_row_head_def is_mat_def)
    with False assms(5) k show ?thesis
      by (simp add: solve_theta_def Let_def length_set_head length_leading_block)
  qed
qed

lemma valid_later:
  assumes v: "valid_state s" and it: "0 < iter s" and g: "length g = nat (dim_u s)"
  shows "valid_state ((later_call solve s g)\<lparr>iter := iter s + 1\<rparr>)"
proof -
  let ?s1 = "s\<lparr>current_F := vsub g (current_u s)\<rparr>"
  let ?s2 = "finalize ?s1 g"
  let ?s3 = "solve_theta solve ?s2"
  let ?s4 = "mix ?s3 g"
  have v1: "valid_state ?s1" using v by (simp add: valid_state_def)
  have F: "length (current_F ?s1) = nat (dim_u ?s1)" using v g by (simp add: valid_state_def)
  note sh2 = shape_finalize [OF v1 _ F, of g, simplified]
  have mk: "1 \<le> m_k s" "m_k s \<le> m_win s" using valid_m_k [OF v it] by simp_all
  have m: "0 < m_win s" using v by (simp add: valid_state_def)
  have M: "is_mat (nat (m_win s)) (nat (m_win s)) (M_gram s)"
    and th: "length (theta s) = nat (m_win s)"
    using v by (simp_all add: valid_state_def)
  have sh3: "is_mat (nat (m_win s)) (nat (m_win s)) (M_gram ?s3)"
    "length (theta ?s3) = nat (m_win s)"
    using shape_solve_theta [of ?s2 solve] m mk M th sh2(1) g
    by (simp_all add: is_mat_length)
  have c': "(col_idx s + 1) smod m_win s = iter s mod m_win s"
  proof -
    have "0 \<le> col_idx s" using valid_col_idx [OF v] by simp
    then have "(col_idx s + 1) smod m_win s = (col_idx s + 1) mod m_win s"
      using m by (simp add: smod_nonneg)
    also have "\<dots> = ((iter s - 1) mod m_win s + 1) mod m_win s"
      using v it by (simp add: valid_state_def)
    also have "\<dots> = iter s mod m_win s"
      by (simp add: mod_add_left_eq)
    finally show ?thesis .
  qed
  have u: "length (current_u ?s4) = nat (dim_u s)"
    using g by (simp add: mix_def Let_def)
  show ?thesis
    unfolding later_call_def valid_state_def
    using m v it sh2 sh3 c' u g
    by (simp add: advance_def Let_def is_mat_update valid_state_def)
qed

lemma valid_compute:
  assumes "valid_state s" "length g = nat (dim_u s)"
  shows "\<exists>s'. compute solve s g = Inr s' \<and> valid_state s'"
proof (cases "iter s = 0")
  case True
  with assms show ?thesis
    by (simp add: compute_first valid_state_def is_mat_update)
next
  case False
  with assms have it: "0 < iter s" and d: "0 \<le> dim_u s" by (simp_all add: valid_state_def)
  show ?thesis
    using valid_later [OF assms(1) it assms(2)] compute_later [OF it d assms(2)] by simp
qed

lemma valid_replace:
  assumes "valid_state s" "length u = nat (dim_u s)"
  shows "replace s u = Inr (s\<lparr>current_u := u\<rparr>) \<and> valid_state (s\<lparr>current_u := u\<rparr>)"
  using assms by (simp add: replace_def Eigen_Map_def valid_state_def)

lemma initialised_valid: "initialised solve s \<Longrightarrow> valid_state s"
proof (induction rule: initialised.induct)
  case (after_init mem s0 m d u0 s)
  then show ?case by (rule valid_init)
next
  case (after_compute s g s')
  with valid_compute [of s g solve] show ?case by auto
next
  case (after_replace s u s')
  with valid_replace [of s u] show ?case by auto
qed

lemma length_resize_mat [simp]: "length (resize_mat r c fresh old) = c"
  using is_mat_resize [of r c fresh old] by (simp only: is_mat_length)

section \<open>The concrete accelerator after init\<close>

lemma example_start_init:
  "init example_memory AndersonAcceleration_new 2 1 [0] = Inr example_start"
  by (simp add: init_def Eigen_Map_def example_memory_def AndersonAcceleration_new_def
      example_start_def resize_vec_def resize_mat_def is_mat_def numeral_2_eq_2)

lemma example_start_initialised: "initialised solve example_start"
  by (rule after_init [OF example_start_init]) simp

section \<open>Misuse, the first call, and replace\<close>

text \<open>
  C6. Calling \<^verbatim>\<open>compute\<close> or \<^verbatim>\<open>replace\<close> on an object on which \<^verbatim>\<open>init\<close> was never called
  fails an assertion instead of returning. In \<^verbatim>\<open>compute\<close> it is the assertion
  \<^verbatim>\<open>iter_ >= 0\<close> of the class, as \<^verbatim>\<open>iter_\<close> is \<open>-1\<close>. \<^verbatim>\<open>replace\<close> has no assertion of its
  own: it maps \<^verbatim>\<open>dim_\<close> scalars, \<^verbatim>\<open>dim_\<close> is \<open>-1\<close>, and the assertion that fails is the one
  of Eigen's \<^verbatim>\<open>Map\<close> on a negative size.
\<close>

theorem compute_replace_before_init:
  "compute solve AndersonAcceleration_new g = Inl Assertion_failed \<and>
   replace AndersonAcceleration_new u = Inl Eigen_assertion_failed"
  by (simp add: compute_def replace_def Eigen_Map_def AndersonAcceleration_new_def)

text \<open>
  C2. After \<^verbatim>\<open>init(m, d, u0)\<close> with \<open>m > 0\<close>, on an object in any state and whatever the new
  storage holds, the first \<^verbatim>\<open>compute(g)\<close> returns \<open>g\<close> itself, the residual is \<open>F = g - u0\<close>,
  and column \<open>0\<close> of the two histories is seeded with \<open>-F\<close> and \<open>-g\<close>.
\<close>

theorem first_compute_returns_g:
  assumes "0 < m" and "0 \<le> d" and "length u0 = nat d" and "length g = nat d"
  shows "\<exists>s s'. init mem s0 m d u0 = Inr s \<and> compute solve s g = Inr s' \<and>
           current_u s' = g \<and> current_F s' = vsub g u0 \<and>
           prev_dF s' ! 0 = vneg (vsub g u0) \<and> prev_dG s' ! 0 = vneg g \<and>
           iter s' = 1"
proof -
  obtain s where s: "init mem s0 m d u0 = Inr s"
    using assms by (simp add: init_def Eigen_Map_def)
  have f: "iter s = 0" "dim_u s = d" "current_u s = u0"
    "length (prev_dF s) = nat m" "length (prev_dG s) = nat m"
    using s assms by (auto simp: init_def Eigen_Map_def)
  have "compute solve s g =
    Inr (s\<lparr>current_F := vsub g (current_u s),
           prev_dF := (prev_dF s)[0 := vneg (vsub g (current_u s))],
           prev_dG := (prev_dG s)[0 := vneg g],
           current_u := g, iter := 1\<rparr>)"
    using f assms by (intro compute_first) simp_all
  with s f assms show ?thesis by simp
qed

theorem first_compute_returns_g_witness:
  "(0::int) < 2 \<and> (0::int) \<le> 1 \<and> length [0::real] = nat 1 \<and> length [5::real] = nat 1 \<and>
   (\<exists>s s'. init example_memory AndersonAcceleration_new 2 1 [0] = Inr s \<and>
      compute example_solver s [5] = Inr s' \<and>
      current_u s' = [5] \<and> current_F s' = vsub [5] [0] \<and>
      prev_dF s' ! 0 = vneg (vsub [5] [0]) \<and> prev_dG s' ! 0 = vneg [5] \<and> iter s' = 1)"
  using first_compute_returns_g [of 2 1 "[0]" "[5]" example_memory AndersonAcceleration_new example_solver]
  by simp

text \<open>
  C3. In every state reached after \<^verbatim>\<open>init\<close>, \<^verbatim>\<open>replace(u)\<close> returns the same state with
  \<open>u\<close> as the current iterate: the histories, the scales, the Gram matrix, the counter and
  the write index are unchanged. The next \<^verbatim>\<open>compute(g)\<close> takes its residual against \<open>u\<close>:
  \<open>F = g - u\<close>.
\<close>

theorem replace_only_current_u:
  assumes "initialised solve s" and "length u = nat (dim_u s)" and "length g = nat (dim_u s)"
  shows "\<exists>s1 s2. replace s u = Inr s1 \<and> s1 = s\<lparr>current_u := u\<rparr> \<and>
           prev_dG s1 = prev_dG s \<and> prev_dF s1 = prev_dF s \<and> dF_scale s1 = dF_scale s \<and>
           M_gram s1 = M_gram s \<and> iter s1 = iter s \<and> col_idx s1 = col_idx s \<and>
           compute solve s1 g = Inr s2 \<and> current_F s2 = vsub g u"
proof -
  have v: "valid_state s" using assms(1) by (rule initialised_valid)
  then have d: "0 \<le> dim_u s" and it: "0 \<le> iter s" by (simp_all add: valid_state_def)
  let ?s1 = "s\<lparr>current_u := u\<rparr>"
  have r: "replace s u = Inr ?s1"
    using valid_replace [OF v assms(2)] by simp
  have "\<exists>s2. compute solve ?s1 g = Inr s2 \<and> current_F s2 = vsub g u"
  proof (cases "iter s = 0")
    case True
    then show ?thesis using d assms(3) by (simp add: compute_first)
  next
    case False
    with it have "0 < iter ?s1" by simp
    then show ?thesis using d assms(3) by (simp add: compute_later later_call_def)
  qed
  with r show ?thesis by auto
qed

theorem replace_only_current_u_witness:
  "initialised example_solver example_start \<and> length [3::real] = nat (dim_u example_start) \<and>
   length [5::real] = nat (dim_u example_start) \<and>
   (\<exists>s1 s2. replace example_start [3] = Inr s1 \<and> s1 = example_start\<lparr>current_u := [3]\<rparr> \<and>
      prev_dG s1 = prev_dG example_start \<and> prev_dF s1 = prev_dF example_start \<and>
      dF_scale s1 = dF_scale example_start \<and> M_gram s1 = M_gram example_start \<and>
      iter s1 = iter example_start \<and> col_idx s1 = col_idx example_start \<and>
      compute example_solver s1 [5] = Inr s2 \<and> current_F s2 = vsub [5] [3])"
proof -
  have i: "initialised example_solver example_start" by (rule example_start_initialised)
  have l: "length [3::real] = nat (dim_u example_start)" "length [5::real] = nat (dim_u example_start)"
    by (simp_all add: example_start_def)
  from replace_only_current_u [OF i l] i l show ?thesis by blast
qed

section \<open>A call after the first, field by field\<close>

lemma later_call_fields:
  "m_win (later_call solve s g) = m_win s"
  "dim_u (later_call solve s g) = dim_u s"
  "iter (later_call solve s g) = iter s"
  "current_F (later_call solve s g) = vsub g (current_u s)"
  "col_idx (later_call solve s g) = (col_idx s + 1) smod m_win s"
  by (simp_all add: later_call_def) (simp add: advance_def Let_def)

lemma finalize_dG:
  "prev_dG (finalize s G) = (prev_dG s)[nat (col_idx s) := vadd (prev_dG s ! nat (col_idx s)) G]"
  by (simp add: finalize_def Let_def)

lemma finalize_scale:
  "nat (col_idx s) < length (prev_dF s) \<Longrightarrow>
   dF_scale (finalize s G) =
     (dF_scale s)[nat (col_idx s) :=
        max eps (vnorm (vadd (prev_dF s ! nat (col_idx s)) (current_F s)))]"
  by (simp add: finalize_def Let_def)

lemma finalize_dF:
  "nat (col_idx s) < length (prev_dF s) \<Longrightarrow>
   prev_dF (finalize s G) =
     (prev_dF s)[nat (col_idx s) :=
        vdiv (vadd (prev_dF s ! nat (col_idx s)) (current_F s))
          (max eps (vnorm (vadd (prev_dF s ! nat (col_idx s)) (current_F s))))]"
  by (simp add: finalize_def Let_def)

lemma valid_lengths:
  assumes "valid_state s"
  shows "length (prev_dF s) = nat (m_win s)" "length (prev_dG s) = nat (m_win s)"
    "length (M_gram s) = nat (m_win s)" "length (theta s) = nat (m_win s)"
    "length (dF_scale s) = nat (m_win s)" "length (current_u s) = nat (dim_u s)"
    "nat (col_idx s) < nat (m_win s)"
  using assms valid_col_idx [OF assms] by (simp_all add: valid_state_def is_mat_def)

lemma later_call_scale:
  assumes "valid_state s"
  shows "dF_scale (later_call solve s g) =
     (dF_scale s)[nat (col_idx s) :=
        max eps (vnorm (vadd (prev_dF s ! nat (col_idx s)) (vsub g (current_u s))))]"
proof -
  have "nat (col_idx s) < length (prev_dF s)"
    using valid_lengths [OF assms] by simp
  then show ?thesis by (simp add: later_call_def finalize_scale)
qed

lemma later_call_theta:
  "theta (later_call solve s g) =
     theta (solve_theta solve (finalize (s\<lparr>current_F := vsub g (current_u s)\<rparr>) g))"
  by (simp add: later_call_def)

lemma later_call_u:
  "current_u (later_call solve s g) =
     vsub g (mat_times (nat (dim_u s))
       (take (nat (m_k s))
          ((prev_dG s)[nat (col_idx s) := vadd (prev_dG s ! nat (col_idx s)) g]))
       (cwise_div (take (nat (m_k s)) (theta (later_call solve s g)))
          (take (nat (m_k s)) (dF_scale (later_call solve s g)))))"
  by (simp add: later_call_def mix_def Let_def finalize_dG)

lemma eps_pos: "0 < eps"
  by (simp add: eps_def)

lemma nth_vsub: "i < length a \<Longrightarrow> i < length b \<Longrightarrow> vsub a b ! i = a ! i - b ! i"
  by (simp add: vsub_def)

lemma nth_vadd: "i < length a \<Longrightarrow> i < length b \<Longrightarrow> vadd a b ! i = a ! i + b ! i"
  by (simp add: vadd_def)

lemma nth_cwise_div: "i < length a \<Longrightarrow> i < length b \<Longrightarrow> cwise_div a b ! i = a ! i / b ! i"
  by (simp add: cwise_div_def)

lemma nth_mat_times:
  "i < r \<Longrightarrow> mat_times r A x ! i = (\<Sum>j<length A. A ! j ! i * x ! j)"
  by (simp add: mat_times_def interv_sum_list_conv_sum_set_nat atLeast_upt)

lemma valid_window:
  assumes "valid_state s" "0 < iter s"
  shows "nat (m_k s) \<le> nat (m_win s)" "0 < nat (m_k s)" "nat (col_idx s) < nat (m_k s)"
  using valid_m_k [OF assms] valid_col_idx_m_k [OF assms] valid_col_idx [OF assms(1)]
  by simp_all

lemma window_step:
  assumes "valid_state s" "0 < iter s"
    and "j < nat (min (m_win s) (iter s + 1))" and "j \<noteq> nat (iter s mod m_win s)"
  shows "j < nat (m_k s)"
proof (cases "iter s < m_win s")
  case True
  then have "iter s mod m_win s = iter s" using assms(2) by simp
  with assms True show ?thesis by (simp add: m_k_def)
next
  case False
  with assms show ?thesis by (simp add: m_k_def)
qed

lemma later_col_idx:
  assumes "valid_state s" "0 < iter s"
  shows "(col_idx s + 1) smod m_win s = iter s mod m_win s"
proof -
  have m: "0 < m_win s" using assms(1) by (simp add: valid_state_def)
  have "0 \<le> col_idx s" using valid_col_idx [OF assms(1)] by simp
  then have "(col_idx s + 1) smod m_win s = (col_idx s + 1) mod m_win s"
    using m by (simp add: smod_nonneg)
  also have "\<dots> = ((iter s - 1) mod m_win s + 1) mod m_win s"
    using assms by (simp add: valid_state_def)
  also have "\<dots> = iter s mod m_win s"
    by (simp add: mod_add_left_eq)
  finally show ?thesis .
qed

lemma scales_later:
  assumes v: "valid_state s" and it: "0 < iter s" and ok: "scales_ok s"
  shows "\<forall>j < nat (m_k s). eps \<le> dF_scale (later_call solve s g) ! j"
proof (intro allI impI)
  fix j assume j: "j < nat (m_k s)"
  have len: "nat (col_idx s) < length (dF_scale s)"
    using valid_lengths [OF v] by simp
  show "eps \<le> dF_scale (later_call solve s g) ! j"
  proof (cases "j = nat (col_idx s)")
    case True
    with len show ?thesis by (simp add: later_call_scale [OF v])
  next
    case False
    with ok j show ?thesis by (simp add: later_call_scale [OF v] scales_ok_def)
  qed
qed

lemma scales_compute:
  assumes v: "valid_state s" and ok: "scales_ok s" and g: "length g = nat (dim_u s)"
    and c: "compute solve s g = Inr s'"
  shows "scales_ok s'"
proof (cases "iter s = 0")
  case True
  have "0 \<le> dim_u s" "col_idx s = 0" using v True by (simp_all add: valid_state_def)
  with c True g have "nat (m_k s') = 1 \<or> nat (m_k s') = 0" "col_idx s' = 0"
    by (auto simp: compute_first m_k_def)
  then show ?thesis by (auto simp: scales_ok_def)
next
  case False
  with v have it: "0 < iter s" and d: "0 \<le> dim_u s" by (simp_all add: valid_state_def)
  have s': "s' = (later_call solve s g)\<lparr>iter := iter s + 1\<rparr>"
    using c compute_later [OF it d g, of solve] by simp
  show ?thesis
    unfolding scales_ok_def
  proof (intro allI impI)
    fix j assume "j < nat (m_k s')" "j \<noteq> nat (col_idx s')"
    then have "j < nat (min (m_win s) (iter s + 1))" "j \<noteq> nat (iter s mod m_win s)"
      by (simp_all add: s' m_k_def later_call_fields later_col_idx [OF v it])
    then have "j < nat (m_k s)" by (rule window_step [OF v it])
    with scales_later [OF v it ok, of solve g] show "eps \<le> dF_scale s' ! j"
      by (simp add: s')
  qed
qed

lemma initialised_scales: "initialised solve s \<Longrightarrow> scales_ok s"
proof (induction rule: initialised.induct)
  case (after_init mem s0 m d u0 s)
  then have "iter s = 0" by (auto simp: init_def Eigen_Map_def split: if_splits)
  then show ?case by (simp add: scales_ok_def m_k_def)
next
  case (after_compute s g s')
  then show ?case using scales_compute initialised_valid by blast
next
  case (after_replace s u s')
  then have "s' = s\<lparr>current_u := u\<rparr>"
    using valid_replace [OF initialised_valid] by fastforce
  with after_replace show ?case by (simp add: scales_ok_def m_k_def)
qed

lemma later_call_u_nth:
  assumes v: "valid_state s" and it: "0 < iter s" and g: "length g = nat (dim_u s)"
    and i: "i < length g"
  shows "current_u (later_call solve s g) ! i = g ! i -
        (\<Sum>j < nat (m_k s).
           (prev_dG s)[nat (col_idx s) := vadd (prev_dG s ! nat (col_idx s)) g] ! j ! i *
           (theta (later_call solve s g) ! j / dF_scale (later_call solve s g) ! j))"
proof -
  let ?t = "later_call solve s g"
  let ?k = "nat (m_k s)"
  let ?dG = "(prev_dG s)[nat (col_idx s) := vadd (prev_dG s ! nat (col_idx s)) g]"
  have "valid_state (?t\<lparr>iter := iter s + 1\<rparr>)" by (rule valid_later [OF v it g])
  from valid_lengths [OF this]
  have lens: "length (theta ?t) = nat (m_win s)" "length (dF_scale ?t) = nat (m_win s)"
    by (simp_all add: later_call_fields)
  have k: "?k \<le> nat (m_win s)" using valid_window [OF v it] by simp
  have ldG: "length ?dG = nat (m_win s)" using valid_lengths [OF v] by simp
  have "current_u ?t ! i = g ! i -
        (\<Sum>j < ?k. take ?k ?dG ! j ! i *
           cwise_div (take ?k (theta ?t)) (take ?k (dF_scale ?t)) ! j)"
    using i k ldG g
    by (subst later_call_u) (simp add: nth_vsub nth_mat_times)
  also have "(\<Sum>j < ?k. take ?k ?dG ! j ! i *
           cwise_div (take ?k (theta ?t)) (take ?k (dF_scale ?t)) ! j) =
        (\<Sum>j < ?k. ?dG ! j ! i * (theta ?t ! j / dF_scale ?t ! j))"
    using k lens by (intro sum.cong refl) (simp add: nth_cwise_div)
  finally show ?thesis .
qed

lemma sum_list_divide: "(\<Sum>z\<leftarrow>zs. f z / c) = (\<Sum>z\<leftarrow>zs. f z) / (c::real)"
  by (induction zs) (simp_all add: add_divide_distrib)

lemma dot_vdiv: "dot (vdiv a x) (vdiv b x) = dot a b / (x * x)"
proof -
  have "dot (vdiv a x) (vdiv b x) = (\<Sum>z\<leftarrow>zip a b. (fst z * snd z) / (x * x))"
    by (simp add: dot_def vdiv_def zip_map_map o_def split_beta)
  also have "\<dots> = (\<Sum>z\<leftarrow>zip a b. fst z * snd z) / (x * x)"
    by (rule sum_list_divide)
  also have "(\<Sum>z\<leftarrow>zip a b. fst z * snd z) = dot a b"
    unfolding dot_def by (rule arg_cong [where f = sum_list]) (simp add: split_beta)
  finally show ?thesis .
qed

lemma squaredNorm_nonneg: "0 \<le> squaredNorm a"
  unfolding squaredNorm_def dot_def
  by (rule sum_list_nonneg) (auto simp: zip_same)

lemma vnorm_squared: "(vnorm a)\<^sup>2 = squaredNorm a"
  by (simp add: vnorm_def squaredNorm_nonneg)

lemma solve_theta_single:
  assumes "m_k s = 1" and "0 < length (theta s)"
  shows "theta (solve_theta solve s) ! 0 =
     (if vnorm (prev_dF s ! nat (col_idx s)) > eps
      then dot (prev_dF s ! nat (col_idx s)) (current_F s) /
             (vnorm (prev_dF s ! nat (col_idx s)))\<^sup>2
      else 0)"
  using assms
  by (simp add: solve_theta_def Let_def dot_vdiv vnorm_def power2_eq_square)

text \<open>
  C1. In every state reached after \<^verbatim>\<open>init\<close> with \<open>iter \<ge> 1\<close>, \<^verbatim>\<open>compute(g)\<close> returns, entry by
  entry, \<open>g\<close> minus the product of the leading \<open>m_k = min(m, iter)\<close> columns of the
  history \<open>dG\<close> (with the column at the write index completed by \<open>g\<close>, as at the time of
  mixing) with the coefficients \<open>theta\<close> divided by the stored scales of those columns.
\<close>

theorem compute_mixes_history:
  assumes "initialised solve s" and "1 \<le> iter s" and "length g = nat (dim_u s)"
  shows "\<exists>s'. compute solve s g = Inr s' \<and> length (current_u s') = length g \<and>
     (\<forall>i < length g. current_u s' ! i = g ! i -
        (\<Sum>j < nat (min (m_win s) (iter s)).
           (prev_dG s)[nat (col_idx s) := vadd (prev_dG s ! nat (col_idx s)) g] ! j ! i *
           (theta s' ! j / dF_scale s' ! j)))"
proof -
  have v: "valid_state s" using assms(1) by (rule initialised_valid)
  have it: "0 < iter s" using assms(2) by simp
  have d: "0 \<le> dim_u s" using v by (simp add: valid_state_def)
  have c: "compute solve s g = Inr ((later_call solve s g)\<lparr>iter := iter s + 1\<rparr>)"
    by (rule compute_later [OF it d assms(3)])
  have lu: "length (current_u (later_call solve s g)) = length g"
    by (simp add: later_call_u assms(3))
  from c lu later_call_u_nth [OF v it assms(3), of _ solve] show ?thesis
    by (simp add: m_k_def)
qed

text \<open>
  C7. In every state reached after \<^verbatim>\<open>init\<close> with \<open>iter \<ge> 1\<close>, \<^verbatim>\<open>compute(g)\<close> stores for the
  column \<open>c\<close> at the write index the scale \<open>max(eps, \<parallel>r\<parallel>)\<close>, where \<open>r\<close> is the residual increment
  and \<open>eps = 1e-14\<close>, and divides that column by it in place (the column keeps that value
  to the end of the call unless \<open>m = 1\<close>, where the same column is seeded again). Every
  scale of the \<open>m_k\<close> active columns is at least \<open>eps > 0\<close>, so the mixing step divides by
  no zero, and \<^verbatim>\<open>compute\<close> returns a vector of \<open>d\<close> entries. (In exact arithmetic: that
  the floating-point result is finite is outside the model.)
\<close>

theorem scale_is_clamped_norm:
  assumes "initialised solve s" and "1 \<le> iter s" and "length g = nat (dim_u s)"
  shows "let c = nat (col_idx s);
             F = vsub g (current_u s);
             r = vadd (prev_dF s ! c) F;
             scale = max eps (vnorm r)
         in eps = 1 / 10 ^ 14 \<and> 0 < eps \<and>
            prev_dF (finalize (s\<lparr>current_F := F\<rparr>) g) ! c = vdiv r scale \<and>
            (\<exists>s'. compute solve s g = Inr s' \<and>
               dF_scale s' ! c = scale \<and>
               (1 < m_win s \<longrightarrow> prev_dF s' ! c = vdiv r scale) \<and>
               (\<forall>j < nat (min (m_win s) (iter s)). eps \<le> dF_scale s' ! j) \<and>
               length (current_u s') = length g)"
proof -
  have v: "valid_state s" using assms(1) by (rule initialised_valid)
  have ok: "scales_ok s" using assms(1) by (rule initialised_scales)
  have it: "0 < iter s" using assms(2) by simp
  have d: "0 \<le> dim_u s" and m: "0 < m_win s" using v by (simp_all add: valid_state_def)
  let ?c = "nat (col_idx s)"
  let ?F = "vsub g (current_u s)"
  let ?r = "vadd (prev_dF s ! ?c) ?F"
  let ?scale = "max eps (vnorm ?r)"
  let ?t = "later_call solve s g"
  note len = valid_lengths [OF v]
  have c: "compute solve s g = Inr (?t\<lparr>iter := iter s + 1\<rparr>)"
    by (rule compute_later [OF it d assms(3)])
  have fin: "prev_dF (finalize (s\<lparr>current_F := ?F\<rparr>) g) ! ?c = vdiv ?r ?scale"
    using len by (simp add: finalize_dF)
  have sc: "dF_scale ?t ! ?c = ?scale"
    using len by (simp add: later_call_scale [OF v])
  have post: "prev_dF ?t ! ?c = vdiv ?r ?scale" if "1 < m_win s"
  proof -
    have "(iter s - 1) mod m_win s \<noteq> iter s mod m_win s"
    proof
      assume "(iter s - 1) mod m_win s = iter s mod m_win s"
      then have "m_win s dvd (iter s - 1) - iter s" by (simp only: mod_eq_dvd_iff)
      then have "m_win s dvd 1" by simp
      with that m show False by simp
    qed
    moreover have "0 \<le> (iter s - 1) mod m_win s" "0 \<le> iter s mod m_win s"
      using m by simp_all
    ultimately have "nat (iter s mod m_win s) \<noteq> nat ((iter s - 1) mod m_win s)"
      by (simp add: eq_nat_nat_iff)
    moreover have "col_idx s = (iter s - 1) mod m_win s"
      using v it by (simp add: valid_state_def)
    ultimately have "nat (iter s mod m_win s) \<noteq> ?c" by simp
    then show ?thesis
      using fin by (simp add: later_call_def advance_def Let_def later_col_idx [OF v it])
  qed
  have lu: "length (current_u ?t) = length g"
    by (simp add: later_call_u assms(3))
  from c fin sc post lu scales_later [OF v it ok, of solve g] show ?thesis
    by (simp add: Let_def eps_def m_k_def)
qed

lemma dot_vdiv_left: "dot (vdiv a x) b = dot a b / x"
proof -
  have "dot (vdiv a x) b = (\<Sum>z\<leftarrow>zip a b. (fst z * snd z) / x)"
    by (simp add: dot_def vdiv_def zip_map1 o_def split_beta)
  also have "\<dots> = (\<Sum>z\<leftarrow>zip a b. fst z * snd z) / x"
    by (rule sum_list_divide)
  also have "(\<Sum>z\<leftarrow>zip a b. fst z * snd z) = dot a b"
    unfolding dot_def by (rule arg_cong [where f = sum_list]) (simp add: split_beta)
  finally show ?thesis .
qed

lemma vnorm_nonneg: "0 \<le> vnorm a"
  by (simp add: vnorm_def squaredNorm_nonneg)

lemma vnorm_vdiv: "0 < x \<Longrightarrow> vnorm (vdiv a x) = vnorm a / x"
  by (simp add: vnorm_def squaredNorm_def dot_vdiv real_sqrt_divide real_sqrt_mult)

text \<open>
  The guard of line 83 in terms of the residual increment \<open>r\<close> itself: the column it tests
  has been divided by \<open>max(eps, \<parallel>r\<parallel>)\<close>, so it asks for \<open>\<parallel>r\<parallel> > eps\<^sup>2\<close>.
\<close>

lemma guard_of_scaled:
  "(vnorm (vdiv r (max eps (vnorm r))) > eps) = (vnorm r > eps * eps)"
proof -
  have e: "0 < eps" "eps < 1" by (simp_all add: eps_def)
  have ee: "eps * eps < eps" using e by simp
  show ?thesis
  proof (cases "eps \<le> vnorm r")
    case True
    then have "max eps (vnorm r) = vnorm r" by simp
    moreover have "0 < vnorm r" using True e by linarith
    ultimately have "vnorm (vdiv r (max eps (vnorm r))) = 1"
      by (simp add: vnorm_vdiv)
    moreover have "eps * eps < vnorm r" using True ee by linarith
    ultimately show ?thesis using e by simp
  next
    case False
    then have "max eps (vnorm r) = eps" by simp
    then have "vnorm (vdiv r (max eps (vnorm r))) = vnorm r / eps"
      using e by (simp add: vnorm_vdiv)
    with e show ?thesis by (simp add: pos_less_divide_eq)
  qed
qed

text \<open>
  The coefficient that the mixing step applies, \<open>theta / scale\<close>, in terms of the residual
  increment \<open>r\<close> itself.
\<close>

lemma theta_over_scale:
  assumes "0 < c" and "0 < vnorm r"
  shows "dot (vdiv r c) F / (vnorm (vdiv r c))\<^sup>2 / c = dot r F / (vnorm r)\<^sup>2"
proof -
  have "dot (vdiv r c) F / (vnorm (vdiv r c))\<^sup>2 / c =
        dot r F / c / ((vnorm r / c)\<^sup>2) / c"
    using assms(1) by (simp add: dot_vdiv_left vnorm_vdiv)
  also have "\<dots> = dot r F / (vnorm r)\<^sup>2"
    using assms by (simp add: power2_eq_square field_simps)
  finally show ?thesis .
qed

text \<open>
  C5. In every state reached after \<^verbatim>\<open>init\<close> with \<open>min(m, iter) = 1\<close>, the write index is \<open>0\<close>.
  Let \<open>r\<close> be the residual increment of the call \<^verbatim>\<open>compute(g)\<close>, \<open>scale = max(eps, \<parallel>r\<parallel>)\<close> the
  scale stored for it and \<open>dF = r / scale\<close> the column as it stands after the division in
  place. The call sets \<open>theta(0) = (dF \<cdot> F) / \<parallel>dF\<parallel>\<^sup>2\<close> if \<open>\<parallel>dF\<parallel> > eps\<close> and \<open>theta(0) = 0\<close>
  otherwise: formula and guard are those of the divided column. In terms of \<open>r\<close> the guard is
  \<open>\<parallel>r\<parallel> > eps\<^sup>2\<close>, and when it holds the coefficient that the mixing applies, \<open>theta(0) / scale\<close>,
  is \<open>(r \<cdot> F) / \<parallel>r\<parallel>\<^sup>2\<close>; when it does not hold, \<open>theta(0) = 0\<close>. The scale divided by is
  positive, and whenever \<open>theta(0) = 0\<close> the call returns \<open>g\<close>.
\<close>

theorem single_column_theta:
  assumes "initialised solve s" and "min (m_win s) (iter s) = 1"
    and "length g = nat (dim_u s)"
  shows "let F = vsub g (current_u s);
             r = vadd (prev_dF s ! 0) F;
             scale = max eps (vnorm r);
             dF = vdiv r scale
         in col_idx s = 0 \<and>
            (\<exists>s'. compute solve s g = Inr s' \<and>
               theta s' ! 0 = (if vnorm dF > eps then dot dF F / (vnorm dF)\<^sup>2 else 0) \<and>
               dF_scale s' ! 0 = scale \<and> 0 < dF_scale s' ! 0 \<and>
               ((vnorm dF > eps) = (vnorm r > eps * eps)) \<and>
               (vnorm r > eps * eps \<longrightarrow>
                  theta s' ! 0 / dF_scale s' ! 0 = dot r F / (vnorm r)\<^sup>2) \<and>
               (\<not> vnorm r > eps * eps \<longrightarrow> theta s' ! 0 = 0) \<and>
               (theta s' ! 0 = 0 \<longrightarrow> current_u s' = g))"
proof -
  have v: "valid_state s" using assms(1) by (rule initialised_valid)
  have ok: "scales_ok s" using assms(1) by (rule initialised_scales)
  have d: "0 \<le> dim_u s" and m: "0 < m_win s" using v by (simp_all add: valid_state_def)
  have it: "0 < iter s" using assms(2) by (simp add: min_def split: if_splits)
  have mk: "m_k s = 1" using assms(2) by (simp add: m_k_def)
  have c0: "col_idx s = 0"
    using valid_col_idx_m_k [OF v it] valid_col_idx [OF v] mk by simp
  let ?F = "vsub g (current_u s)"
  let ?r = "vadd (prev_dF s ! 0) ?F"
  let ?scale = "max eps (vnorm ?r)"
  let ?dF = "vdiv ?r ?scale"
  let ?s1 = "s\<lparr>current_F := ?F\<rparr>"
  let ?t = "later_call solve s g"
  note len = valid_lengths [OF v]
  have c: "compute solve s g = Inr (?t\<lparr>iter := iter s + 1\<rparr>)"
    by (rule compute_later [OF it d assms(3)])
  have fin: "prev_dF (finalize ?s1 g) ! 0 = ?dF"
    using len c0 m by (simp add: finalize_dF)
  have th: "theta ?t ! 0 = (if vnorm ?dF > eps then dot ?dF ?F / (vnorm ?dF)\<^sup>2 else 0)"
    using solve_theta_single [of "finalize ?s1 g" solve] mk len m c0 fin
    by (simp add: later_call_theta)
  have scv: "dF_scale ?t ! 0 = ?scale"
    using len m c0 by (simp add: later_call_scale [OF v])
  have pos: "0 < ?scale" using eps_pos by (simp add: less_max_iff_disj)
  have sc: "0 < dF_scale ?t ! 0" using scv pos by simp
  have gd: "(vnorm ?dF > eps) = (vnorm ?r > eps * eps)" by (rule guard_of_scaled)
  have eff: "theta ?t ! 0 / dF_scale ?t ! 0 = dot ?r ?F / (vnorm ?r)\<^sup>2"
    if r: "vnorm ?r > eps * eps"
  proof -
    have "0 < eps * eps" using eps_pos by simp
    with r have "0 < vnorm ?r" by linarith
    from theta_over_scale [OF pos this, of ?F] r show ?thesis
      unfolding th scv gd by simp
  qed
  have off: "theta ?t ! 0 = 0" if "\<not> vnorm ?r > eps * eps"
    using that unfolding th gd by simp
  have u: "current_u ?t = g" if "theta ?t ! 0 = 0"
  proof (rule nth_equalityI)
    show "length (current_u ?t) = length g" by (simp add: later_call_u assms(3))
  next
    fix i assume "i < length (current_u ?t)"
    then have "i < length g" by (simp add: later_call_u assms(3))
    from later_call_u_nth [OF v it assms(3) this, of solve] that mk
    show "current_u ?t ! i = g ! i" by simp
  qed
  have "\<exists>s'. compute solve s g = Inr s' \<and>
               theta s' ! 0 = (if vnorm ?dF > eps then dot ?dF ?F / (vnorm ?dF)\<^sup>2 else 0) \<and>
               dF_scale s' ! 0 = ?scale \<and> 0 < dF_scale s' ! 0 \<and>
               ((vnorm ?dF > eps) = (vnorm ?r > eps * eps)) \<and>
               (vnorm ?r > eps * eps \<longrightarrow>
                  theta s' ! 0 / dF_scale s' ! 0 = dot ?r ?F / (vnorm ?r)\<^sup>2) \<and>
               (\<not> vnorm ?r > eps * eps \<longrightarrow> theta s' ! 0 = 0) \<and>
               (theta s' ! 0 = 0 \<longrightarrow> current_u s' = g)"
  proof (intro exI [of _ "?t\<lparr>iter := iter s + 1\<rparr>"] conjI impI)
    show "compute solve s g = Inr (?t\<lparr>iter := iter s + 1\<rparr>)" by (rule c)
  qed (use th scv sc gd eff off u in simp_all)
  with c0 show ?thesis unfolding Let_def by (rule conjI)
qed


lemma example_second_compute: "compute solve example_start [1] = Inr example_second"
  by (simp add: compute_def Eigen_Map_def example_start_def example_second_def vsub_def vneg_def)

lemma example_second_initialised: "initialised solve example_second"
  by (rule after_compute [OF example_start_initialised _ example_second_compute])
    (simp add: example_start_def)

lemma example_second_facts:
  "1 \<le> iter example_second" "length [3::real] = nat (dim_u example_second)"
  "min (m_win example_second) (iter example_second) = 1"
  by (simp_all add: example_second_def)

theorem compute_mixes_history_witness:
  "initialised example_solver example_second \<and> 1 \<le> iter example_second \<and>
   length [3::real] = nat (dim_u example_second) \<and>
   (\<exists>s'. compute example_solver example_second [3] = Inr s' \<and>
      length (current_u s') = length [3::real] \<and>
      (\<forall>i < length [3::real]. current_u s' ! i = [3] ! i -
        (\<Sum>j < nat (min (m_win example_second) (iter example_second)).
           (prev_dG example_second)[nat (col_idx example_second) :=
              vadd (prev_dG example_second ! nat (col_idx example_second)) [3]] ! j ! i *
           (theta s' ! j / dF_scale s' ! j))))"
  using compute_mixes_history [OF example_second_initialised example_second_facts(1,2)]
    example_second_initialised [of example_solver] example_second_facts(1,2)
  by blast

theorem scale_is_clamped_norm_witness:
  "initialised example_solver example_second \<and> 1 \<le> iter example_second \<and>
   length [3::real] = nat (dim_u example_second) \<and>
   (let c = nat (col_idx example_second);
        F = vsub [3] (current_u example_second);
        r = vadd (prev_dF example_second ! c) F;
        scale = max eps (vnorm r)
    in eps = 1 / 10 ^ 14 \<and> 0 < eps \<and>
       prev_dF (finalize (example_second\<lparr>current_F := F\<rparr>) [3]) ! c = vdiv r scale \<and>
       (\<exists>s'. compute example_solver example_second [3] = Inr s' \<and>
          dF_scale s' ! c = scale \<and>
          (1 < m_win example_second \<longrightarrow> prev_dF s' ! c = vdiv r scale) \<and>
          (\<forall>j < nat (min (m_win example_second) (iter example_second)). eps \<le> dF_scale s' ! j) \<and>
          length (current_u s') = length [3::real]))"
  using scale_is_clamped_norm [OF example_second_initialised example_second_facts(1,2)]
    example_second_initialised [of example_solver] example_second_facts(1,2)
  by blast

theorem single_column_theta_witness:
  "initialised example_solver example_second \<and>
   min (m_win example_second) (iter example_second) = 1 \<and>
   length [3::real] = nat (dim_u example_second) \<and>
   (let F = vsub [3] (current_u example_second);
        r = vadd (prev_dF example_second ! 0) F;
        scale = max eps (vnorm r);
        dF = vdiv r scale
    in col_idx example_second = 0 \<and>
       (\<exists>s'. compute example_solver example_second [3] = Inr s' \<and>
          theta s' ! 0 = (if vnorm dF > eps then dot dF F / (vnorm dF)\<^sup>2 else 0) \<and>
          dF_scale s' ! 0 = scale \<and> 0 < dF_scale s' ! 0 \<and>
          ((vnorm dF > eps) = (vnorm r > eps * eps)) \<and>
          (vnorm r > eps * eps \<longrightarrow>
             theta s' ! 0 / dF_scale s' ! 0 = dot r F / (vnorm r)\<^sup>2) \<and>
          (\<not> vnorm r > eps * eps \<longrightarrow> theta s' ! 0 = 0) \<and>
          (theta s' ! 0 = 0 \<longrightarrow> current_u s' = [3])))"
  using single_column_theta [OF example_second_initialised example_second_facts(3,2)]
    example_second_initialised [of example_solver] example_second_facts(3,2)
  by blast


section \<open>The Gram matrix\<close>

lemma dot_commute: "dot a b = dot b a"
proof -
  have "map2 (*) a b = map2 (*) b a"
    by (induction a arbitrary: b) (auto split: list.splits simp: mult.commute zip_Cons1)
  then show ?thesis by (simp add: dot_def)
qed

lemma nth_rowvec_times: "j < length A \<Longrightarrow> rowvec_times v A ! j = dot v (A ! j)"
  by (simp add: rowvec_times_def)

lemma nth_set_row_head:
  "j < length M \<Longrightarrow> set_row_head M c k v ! j = (if j < k then (M ! j)[c := v ! j] else M ! j)"
  by (simp add: set_row_head_def)

lemma length_set_row_head [simp]: "length (set_row_head M c k v) = length M"
  by (simp add: set_row_head_def)

lemma nth_set_col_head:
  "c < length M \<Longrightarrow>
   set_col_head M c k v ! j = (if j = c then take k v @ drop k (M ! c) else M ! j)"
  by (simp add: set_col_head_def nth_list_update)

lemma later_call_at_solve:
  "later_call solve s g = advance (mix (at_solve solve s g) g) g"
  by (simp add: later_call_def at_solve_def)

lemma at_solve_fields [simp]:
  "m_win (at_solve solve s g) = m_win s" "dim_u (at_solve solve s g) = dim_u s"
  "iter (at_solve solve s g) = iter s" "col_idx (at_solve solve s g) = col_idx s"
  "m_k (at_solve solve s g) = m_k s"
  "current_F (at_solve solve s g) = vsub g (current_u s)"
  by (simp_all add: at_solve_def)

lemma at_solve_dF:
  assumes "valid_state s"
  shows "prev_dF (at_solve solve s g) =
     (prev_dF s)[nat (col_idx s) :=
        vdiv (vadd (prev_dF s ! nat (col_idx s)) (vsub g (current_u s)))
          (max eps (vnorm (vadd (prev_dF s ! nat (col_idx s)) (vsub g (current_u s)))))]"
  using valid_lengths [OF assms] by (simp add: at_solve_def finalize_dF)

text \<open>The entries of the Gram matrix after the update, for a state whose column \<open>c\<close> of
  \<open>prev_dF\<close> is finished.\<close>

lemma solve_theta_M_entry:
  assumes m: "is_mat n n (M_gram s)" and k: "0 < nat (m_k s)" "nat (m_k s) \<le> n"
    and c: "nat (col_idx s) < nat (m_k s)"
    and dF: "length (prev_dF s) = n"
    and i: "i < nat (m_k s)" and j: "j < nat (m_k s)"
  shows "M_gram (solve_theta solve s) ! j ! i =
     (if i = nat (col_idx s) \<or> j = nat (col_idx s)
      then dot (prev_dF s ! i) (prev_dF s ! j)
      else M_gram s ! j ! i)"
proof (cases "m_k s = 1")
  case True
  with c i j have z: "nat (col_idx s) = 0" "i = 0" "j = 0" by simp_all
  have "0 < n" using k by simp
  then have "0 < length (M_gram s)" "0 < length (M_gram s ! 0)"
    using m by (simp_all add: is_mat_length is_mat_col)
  with True z show ?thesis
    by (simp add: solve_theta_def Let_def squaredNorm_def)
next
  case False
  let ?k = "nat (m_k s)"
  let ?c = "nat (col_idx s)"
  let ?ip = "rowvec_times (prev_dF s ! ?c) (take ?k (prev_dF s))"
  let ?M1 = "set_row_head (M_gram s) ?c ?k ?ip"
  have M': "M_gram (solve_theta solve s) = set_col_head ?M1 ?c ?k ?ip"
    using False by (simp add: solve_theta_def Let_def)
  have lM: "length (M_gram s) = n" using m by (rule is_mat_length)
  have lip: "length ?ip = ?k" using k dF by simp
  have ip: "?ip ! l = dot (prev_dF s ! ?c) (prev_dF s ! l)" if "l < ?k" for l
    using that k dF by (simp add: nth_rowvec_times)
  have lcol: "length (M_gram s ! l) = n" if "l < n" for l
    using m that by (rule is_mat_col)
  have "?c < n" using c k by linarith
  then have cn: "?c < length ?M1" by (simp only: length_set_row_head lM)
  have jn: "j < length (M_gram s)" using j k lM by linarith
  note col = nth_set_col_head [OF cn, of ?k ?ip]
  show ?thesis
  proof (cases "j = ?c")
    case True
    have "M_gram (solve_theta solve s) ! j = take ?k ?ip @ drop ?k (?M1 ! ?c)"
      using True by (simp add: M' col)
    then have "M_gram (solve_theta solve s) ! j ! i = ?ip ! i"
      using i lip by (simp add: nth_append)
    with True ip [OF i] show ?thesis by (simp add: dot_commute)
  next
    case jc: False
    have "M_gram (solve_theta solve s) ! j = ?M1 ! j"
      using jc by (simp add: M' col)
    also have "\<dots> = (M_gram s ! j)[?c := ?ip ! j]"
      using j by (simp add: nth_set_row_head [OF jn])
    finally have "M_gram (solve_theta solve s) ! j = (M_gram s ! j)[?c := ?ip ! j]" .
    moreover have "?c < length (M_gram s ! j)"
      using lcol [of j] j k c by simp
    ultimately show ?thesis
      using jc ip [OF j] by (simp add: nth_list_update)
  qed
qed



lemma later_call_M: "M_gram (later_call solve s g) = M_gram (at_solve solve s g)"
  by (simp add: later_call_at_solve)

lemma later_call_dF:
  "prev_dF (later_call solve s g) =
     (prev_dF (at_solve solve s g))[nat ((col_idx s + 1) smod m_win s) :=
        vneg (vsub g (current_u s))]"
  by (simp add: later_call_at_solve advance_def Let_def)








lemma one_slot_start_init:
  "init example_memory AndersonAcceleration_new 1 1 [0] = Inr one_slot_start"
  by (simp add: init_def Eigen_Map_def example_memory_def AndersonAcceleration_new_def
      one_slot_start_def resize_vec_def resize_mat_def is_mat_def)

lemma one_slot_second_compute: "compute solve one_slot_start [1] = Inr one_slot_second"
  by (simp add: compute_def Eigen_Map_def one_slot_start_def one_slot_second_def
      vsub_def vneg_def)


lemma one_slot_second_initialised: "initialised solve one_slot_second"
proof -
  have "initialised solve one_slot_start"
    by (rule after_init [OF one_slot_start_init]) simp
  then show ?thesis
    by (rule after_compute [OF _ _ one_slot_second_compute]) (simp add: one_slot_start_def)
qed


lemma one_slot_tiny_compute:
  "compute solve one_slot_second [2 + 1 / 10 ^ 15] = Inr one_slot_tiny"
  by (simp add: compute_def Eigen_Map_def one_slot_tiny_def one_slot_second_def
      vsub_def vneg_def vadd_def vdiv_def finalize_def solve_theta_def mix_def advance_def
      m_k_def Let_def eps_def vnorm_def squaredNorm_def dot_def mat_times_def cwise_div_def
      smod_int_alt_def real_sqrt_divide)

text \<open>
  The guard and the formula are not those of the residual increment itself. On the
  single-column accelerator after \<^verbatim>\<open>init(1, 1, {0})\<close> and \<^verbatim>\<open>compute({1})\<close>, the call
  \<^verbatim>\<open>compute({2 + 1e-15})\<close> has the residual \<open>F = {1 + 1e-15}\<close> and the residual increment
  \<open>r = {1e-15}\<close>, of norm at most \<open>eps\<close>. The scale is \<open>eps\<close>, the divided column is \<open>{1/10}\<close>, the
  guard lets it pass, \<open>theta(0)\<close> is \<open>10 + 1e-14\<close> and neither \<open>0\<close> nor \<open>(r \<cdot> F) / \<parallel>r\<parallel>\<^sup>2\<close>, and the
  call returns \<open>{-1e15}\<close>, not \<open>g\<close>.
\<close>

theorem single_column_guard_counterexample:
  "initialised example_solver one_slot_second \<and>
   min (m_win one_slot_second) (iter one_slot_second) = 1 \<and>
   length [2 + 1 / 10 ^ 15 :: real] = nat (dim_u one_slot_second) \<and>
   vadd (prev_dF one_slot_second ! 0)
     (vsub [2 + 1 / 10 ^ 15] (current_u one_slot_second)) = [1 / 10 ^ 15] \<and>
   vnorm [1 / 10 ^ 15] \<le> eps \<and>
   compute example_solver one_slot_second [2 + 1 / 10 ^ 15] = Inr one_slot_tiny \<and>
   theta one_slot_tiny ! 0 = 10 + 1 / 10 ^ 14 \<and>
   theta one_slot_tiny ! 0 \<noteq> 0 \<and>
   dot [1 / 10 ^ 15] (vsub [2 + 1 / 10 ^ 15] (current_u one_slot_second)) /
     (vnorm [1 / 10 ^ 15])\<^sup>2 = 10 ^ 15 + 1 \<and>
   current_u one_slot_tiny = [- (10 ^ 15)] \<and>
   current_u one_slot_tiny \<noteq> [2 + 1 / 10 ^ 15]"
proof -
  have a: "min (m_win one_slot_second) (iter one_slot_second) = 1"
    "length [2 + 1 / 10 ^ 15 :: real] = nat (dim_u one_slot_second)"
    "vadd (prev_dF one_slot_second ! 0)
       (vsub [2 + 1 / 10 ^ 15] (current_u one_slot_second)) = [1 / 10 ^ 15]"
    by (simp_all add: one_slot_second_def vadd_def vsub_def)
  have n: "vnorm [1 / 10 ^ 15] = 1 / 10 ^ 15"
    by (simp add: vnorm_def squaredNorm_def dot_def real_sqrt_divide)
  have b: "vnorm [1 / 10 ^ 15] \<le> eps"
    unfolding n by (simp add: eps_def)
  have t: "theta one_slot_tiny ! 0 = 10 + 1 / 10 ^ 14" "theta one_slot_tiny ! 0 \<noteq> 0"
    "current_u one_slot_tiny = [- (10 ^ 15)]"
    "current_u one_slot_tiny \<noteq> [2 + 1 / 10 ^ 15]"
    by (simp_all add: one_slot_tiny_def)
  have q: "dot [1 / 10 ^ 15] (vsub [2 + 1 / 10 ^ 15] (current_u one_slot_second)) /
     (vnorm [1 / 10 ^ 15])\<^sup>2 = 10 ^ 15 + 1"
    unfolding n by (simp add: one_slot_second_def vsub_def dot_def power2_eq_square)
  from one_slot_second_initialised [of example_solver]
    one_slot_tiny_compute [of example_solver] a b t q
  show ?thesis by blast
qed

section \<open>The window\<close>

lemma same_window_agree: "same_window s s' \<Longrightarrow> window_agree s s'"
  by (simp add: same_window_def window_agree_def)

lemma leading_block_cong:
  assumes "is_mat n n A" "is_mat n n B" "k \<le> n"
    and "\<And>i j. i < k \<Longrightarrow> j < k \<Longrightarrow> A ! j ! i = B ! j ! i"
  shows "leading_block A k = leading_block B k"
proof -
  have "take k (A ! j) = take k (B ! j)" if "j < k" for j
    using assms that by (intro nth_take_lemma) (simp_all add: is_mat_col)
  then show ?thesis
    unfolding leading_block_def using assms(1-3)
    by (intro nth_equalityI) (simp_all add: is_mat_length)
qed

lemma at_solve_scale:
  assumes "valid_state s"
  shows "dF_scale (at_solve solve s g) =
     (dF_scale s)[nat (col_idx s) :=
        max eps (vnorm (vadd (prev_dF s ! nat (col_idx s)) (vsub g (current_u s))))]"
  using valid_lengths [OF assms] by (simp add: at_solve_def finalize_scale)

lemma at_solve_dG:
  "prev_dG (at_solve solve s g) =
     (prev_dG s)[nat (col_idx s) := vadd (prev_dG s ! nat (col_idx s)) g]"
  by (simp add: at_solve_def finalize_dG)

lemma at_solve_shape:
  assumes v: "valid_state s" and it: "0 < iter s" and g: "length g = nat (dim_u s)"
  shows "length (prev_dF (at_solve solve s g)) = nat (m_win s)"
    "length (prev_dG (at_solve solve s g)) = nat (m_win s)"
    "length (dF_scale (at_solve solve s g)) = nat (m_win s)"
    "length (theta (at_solve solve s g)) = nat (m_win s)"
    "is_mat (nat (m_win s)) (nat (m_win s)) (M_gram (at_solve solve s g))"
proof -
  let ?s1 = "s\<lparr>current_F := vsub g (current_u s)\<rparr>"
  note len = valid_lengths [OF v]
  show "length (prev_dF (at_solve solve s g)) = nat (m_win s)"
    using len by (simp add: at_solve_dF [OF v])
  show "length (prev_dG (at_solve solve s g)) = nat (m_win s)"
    using len by (simp add: at_solve_dG)
  show "length (dF_scale (at_solve solve s g)) = nat (m_win s)"
    using len by (simp add: at_solve_scale [OF v])
  have f: "0 < m_win (finalize ?s1 g)" "1 \<le> m_k (finalize ?s1 g)"
    "m_k (finalize ?s1 g) \<le> m_win (finalize ?s1 g)"
    "is_mat (nat (m_win (finalize ?s1 g))) (nat (m_win (finalize ?s1 g))) (M_gram (finalize ?s1 g))"
    "length (theta (finalize ?s1 g)) = nat (m_win (finalize ?s1 g))"
    "length (prev_dF (finalize ?s1 g)) = nat (m_win (finalize ?s1 g))"
    using v valid_m_k [OF v it] len by (simp_all add: valid_state_def finalize_dF)
  from shape_solve_theta [OF f, of solve]
  show "length (theta (at_solve solve s g)) = nat (m_win s)"
    "is_mat (nat (m_win s)) (nat (m_win s)) (M_gram (at_solve solve s g))"
    by (simp_all add: at_solve_def)
qed

lemma at_solve_M_entry:
  assumes v: "valid_state s" and it: "0 < iter s"
    and i: "i < nat (m_k s)" and j: "j < nat (m_k s)"
  shows "M_gram (at_solve solve s g) ! j ! i =
     (if i = nat (col_idx s) \<or> j = nat (col_idx s)
      then dot (prev_dF (at_solve solve s g) ! i) (prev_dF (at_solve solve s g) ! j)
      else M_gram s ! j ! i)"
proof -
  let ?f = "finalize (s\<lparr>current_F := vsub g (current_u s)\<rparr>) g"
  note len = valid_lengths [OF v]
  note w = valid_window [OF v it]
  have m: "is_mat (nat (m_win s)) (nat (m_win s)) (M_gram ?f)"
    using v by (simp add: valid_state_def)
  have dF: "length (prev_dF ?f) = nat (m_win s)"
    using len by (simp add: finalize_dF)
  show ?thesis
    unfolding at_solve_def
    using solve_theta_M_entry [of "nat (m_win s)" ?f i j solve] m w dF i j by simp
qed

lemma at_solve_theta:
  assumes v: "valid_state s" and it: "0 < iter s" and g: "length g = nat (dim_u s)"
    and j: "j < nat (m_k s)"
  shows "theta (at_solve solve s g) ! j =
     (if m_k s = 1
      then (if vnorm (prev_dF (at_solve solve s g) ! nat (col_idx s)) > eps
            then dot (prev_dF (at_solve solve s g) ! nat (col_idx s)) (vsub g (current_u s)) /
                   (vnorm (prev_dF (at_solve solve s g) ! nat (col_idx s)))\<^sup>2
            else 0)
      else cod_solve solve (leading_block (M_gram (at_solve solve s g)) (nat (m_k s)))
             (transpose_times (take (nat (m_k s)) (prev_dF (at_solve solve s g)))
                (vsub g (current_u s))) ! j)"
proof (cases "m_k s = 1")
  case True
  let ?f = "finalize (s\<lparr>current_F := vsub g (current_u s)\<rparr>) g"
  have "0 < length (theta ?f)" using valid_lengths [OF v] by simp
  with True j solve_theta_single [of ?f solve] show ?thesis
    by (simp add: at_solve_def)
next
  case False
  let ?f = "finalize (s\<lparr>current_F := vsub g (current_u s)\<rparr>) g"
  let ?k = "nat (m_k s)"
  note w = valid_window [OF v it]
  have lM: "length (M_gram (at_solve solve s g)) = nat (m_win s)"
    using at_solve_shape(5) [OF v it g] by (rule is_mat_length)
  have "theta (at_solve solve s g) =
     set_head (theta ?f) ?k
       (cod_solve solve (leading_block (M_gram (at_solve solve s g)) ?k)
          (transpose_times (take ?k (prev_dF (at_solve solve s g))) (vsub g (current_u s))))"
    using False by (simp add: at_solve_def solve_theta_def Let_def)
  moreover have "length (leading_block (M_gram (at_solve solve s g)) ?k) = ?k"
    using w lM by (simp add: length_leading_block)
  ultimately show ?thesis
    using False j by (simp add: set_head_def nth_append)
qed

lemma at_solve_u:
  "current_u (later_call solve s g) =
     vsub g (mat_times (nat (dim_u s))
       (take (nat (m_k s)) (prev_dG (at_solve solve s g)))
       (cwise_div (take (nat (m_k s)) (theta (at_solve solve s g)))
          (take (nat (m_k s)) (dF_scale (at_solve solve s g)))))"
  by (simp add: later_call_at_solve mix_def Let_def)

lemma at_solve_nth:
  assumes v: "valid_state s" and j: "j < nat (m_win s)"
  shows "prev_dF (at_solve solve s g) ! j =
     (if j = nat (col_idx s)
      then vdiv (vadd (prev_dF s ! j) (vsub g (current_u s)))
             (max eps (vnorm (vadd (prev_dF s ! j) (vsub g (current_u s)))))
      else prev_dF s ! j)"
    and "prev_dG (at_solve solve s g) ! j =
     (if j = nat (col_idx s) then vadd (prev_dG s ! j) g else prev_dG s ! j)"
    and "dF_scale (at_solve solve s g) ! j =
     (if j = nat (col_idx s)
      then max eps (vnorm (vadd (prev_dF s ! j) (vsub g (current_u s))))
      else dF_scale s ! j)"
proof -
  note len = valid_lengths [OF v]
  have a: "j < length (prev_dF s)" and b: "j < length (prev_dG s)"
    and c: "j < length (dF_scale s)"
    using j len by simp_all
  show "prev_dF (at_solve solve s g) ! j =
     (if j = nat (col_idx s)
      then vdiv (vadd (prev_dF s ! j) (vsub g (current_u s)))
             (max eps (vnorm (vadd (prev_dF s ! j) (vsub g (current_u s)))))
      else prev_dF s ! j)"
    using a by (auto simp: at_solve_dF [OF v])
  show "prev_dG (at_solve solve s g) ! j =
     (if j = nat (col_idx s) then vadd (prev_dG s ! j) g else prev_dG s ! j)"
    using b by (auto simp: at_solve_dG)
  show "dF_scale (at_solve solve s g) ! j =
     (if j = nat (col_idx s)
      then max eps (vnorm (vadd (prev_dF s ! j) (vsub g (current_u s))))
      else dF_scale s ! j)"
    using c by (auto simp: at_solve_scale [OF v])
qed

lemma agree_scalars:
  assumes "window_agree s s'"
  shows "m_win s' = m_win s" "dim_u s' = dim_u s" "iter s' = iter s"
    "col_idx s' = col_idx s" "current_u s' = current_u s" "m_k s' = m_k s"
  using assms by (simp_all add: window_agree_def m_k_def)

lemma agree_cols:
  assumes "window_agree s s'" "j < nat (m_k s)"
  shows "prev_dF s' ! j = prev_dF s ! j" "prev_dG s' ! j = prev_dG s ! j"
  using assms by (simp_all add: window_agree_def)

lemma agree_at_solve:
  assumes v: "valid_state s" and v': "valid_state s'" and a: "window_agree s s'"
    and it: "0 < iter s" and g: "length g = nat (dim_u s)"
    and j: "j < nat (m_k s)"
  shows "prev_dF (at_solve solve s g) ! j = prev_dF (at_solve solve s' g) ! j"
    and "prev_dG (at_solve solve s g) ! j = prev_dG (at_solve solve s' g) ! j"
    and "dF_scale (at_solve solve s g) ! j = dF_scale (at_solve solve s' g) ! j"
proof -
  note e = agree_scalars [OF a]
  note x = agree_cols [OF a j]
  have jm: "j < nat (m_win s)" using j valid_window(1) [OF v it] by linarith
  have jm': "j < nat (m_win s')" using jm by (simp only: e)
  show "prev_dF (at_solve solve s g) ! j = prev_dF (at_solve solve s' g) ! j"
    by (simp only: at_solve_nth(1) [OF v jm] at_solve_nth(1) [OF v' jm'] e x)
  show "prev_dG (at_solve solve s g) ! j = prev_dG (at_solve solve s' g) ! j"
    by (simp only: at_solve_nth(2) [OF v jm] at_solve_nth(2) [OF v' jm'] e x)
  show "dF_scale (at_solve solve s g) ! j = dF_scale (at_solve solve s' g) ! j"
  proof (cases "j = nat (col_idx s)")
    case True
    show ?thesis
      unfolding at_solve_nth(3) [OF v jm] at_solve_nth(3) [OF v' jm'] e x
      using True by simp
  next
    case False
    with a j have y: "dF_scale s' ! j = dF_scale s ! j" by (simp add: window_agree_def)
    show ?thesis
      unfolding at_solve_nth(3) [OF v jm] at_solve_nth(3) [OF v' jm'] e x
      using False y by simp
  qed
qed

lemma agree_at_solve_M:
  assumes v: "valid_state s" and v': "valid_state s'" and a: "window_agree s s'"
    and it: "0 < iter s" and g: "length g = nat (dim_u s)"
    and i: "i < nat (m_k s)" and j: "j < nat (m_k s)"
  shows "M_gram (at_solve solve s g) ! j ! i = M_gram (at_solve solve s' g) ! j ! i"
proof -
  have e: "col_idx s' = col_idx s" "m_k s' = m_k s" "iter s' = iter s"
    using a by (simp_all add: window_agree_def m_k_def)
  have it': "0 < iter s'" using it e by simp
  have i': "i < nat (m_k s')" and j': "j < nat (m_k s')" using i j e by simp_all
  show ?thesis
  proof (cases "i = nat (col_idx s) \<or> j = nat (col_idx s)")
    case True
    then show ?thesis
      using agree_at_solve(1) [OF v v' a it g i, of solve]
        agree_at_solve(1) [OF v v' a it g j, of solve]
      by (simp add: at_solve_M_entry [OF v it i j] at_solve_M_entry [OF v' it' i' j'] e)
  next
    case False
    with a i j have "M_gram s ! j ! i = M_gram s' ! j ! i" by (simp add: window_agree_def)
    with False show ?thesis
      by (simp add: at_solve_M_entry [OF v it i j] at_solve_M_entry [OF v' it' i' j'] e)
  qed
qed

lemma agree_at_solve_theta:
  assumes v: "valid_state s" and v': "valid_state s'" and a: "window_agree s s'"
    and it: "0 < iter s" and g: "length g = nat (dim_u s)"
    and j: "j < nat (m_k s)"
  shows "theta (at_solve solve s g) ! j = theta (at_solve solve s' g) ! j"
proof -
  let ?k = "nat (m_k s)"
  have e: "col_idx s' = col_idx s" "m_k s' = m_k s" "iter s' = iter s"
    "dim_u s' = dim_u s" "current_u s' = current_u s" "m_win s' = m_win s"
    using a by (simp_all add: window_agree_def m_k_def)
  have it': "0 < iter s'" and g': "length g = nat (dim_u s')" and j': "j < nat (m_k s')"
    using it g j e by simp_all
  note w = valid_window [OF v it]
  have dFc: "prev_dF (at_solve solve s g) ! nat (col_idx s) =
             prev_dF (at_solve solve s' g) ! nat (col_idx s)"
    using w by (intro agree_at_solve(1) [OF v v' a it g]) simp
  have tk: "take ?k (prev_dF (at_solve solve s g)) = take ?k (prev_dF (at_solve solve s' g))"
    using w at_solve_shape(1) [OF v it g, of solve] at_solve_shape(1) [OF v' it' g', of solve]
      agree_at_solve(1) [OF v v' a it g, of _ solve]
    by (intro nth_take_lemma) (simp_all add: e)
  have lb: "leading_block (M_gram (at_solve solve s g)) ?k =
            leading_block (M_gram (at_solve solve s' g)) ?k"
    using w at_solve_shape(5) [OF v it g, of solve] at_solve_shape(5) [OF v' it' g', of solve]
      agree_at_solve_M [OF v v' a it g, of _ _ solve]
    by (intro leading_block_cong [where n = "nat (m_win s)"]) (simp_all add: e)
  show ?thesis
    by (simp add: at_solve_theta [OF v it g j] at_solve_theta [OF v' it' g' j'] e dFc tk lb)
qed

lemma agree_later_u:
  assumes v: "valid_state s" and v': "valid_state s'" and a: "window_agree s s'"
    and it: "0 < iter s" and g: "length g = nat (dim_u s)"
  shows "current_u (later_call solve s g) = current_u (later_call solve s' g)"
proof -
  let ?k = "nat (m_k s)"
  have e: "col_idx s' = col_idx s" "m_k s' = m_k s" "iter s' = iter s"
    "dim_u s' = dim_u s" "current_u s' = current_u s" "m_win s' = m_win s"
    using a by (simp_all add: window_agree_def m_k_def)
  have it': "0 < iter s'" and g': "length g = nat (dim_u s')"
    using it g e by simp_all
  note w = valid_window [OF v it]
  note sh = at_solve_shape [OF v it g, of solve] and sh' = at_solve_shape [OF v' it' g', of solve]
  have "take ?k (prev_dG (at_solve solve s g)) = take ?k (prev_dG (at_solve solve s' g))"
    using w sh(2) sh'(2) agree_at_solve(2) [OF v v' a it g, of _ solve]
    by (intro nth_take_lemma) (simp_all add: e)
  moreover have "take ?k (theta (at_solve solve s g)) = take ?k (theta (at_solve solve s' g))"
    using w sh(4) sh'(4) agree_at_solve_theta [OF v v' a it g, of _ solve]
    by (intro nth_take_lemma) (simp_all add: e)
  moreover have "take ?k (dF_scale (at_solve solve s g)) = take ?k (dF_scale (at_solve solve s' g))"
    using w sh(3) sh'(3) agree_at_solve(3) [OF v v' a it g, of _ solve]
    by (intro nth_take_lemma) (simp_all add: e)
  ultimately show ?thesis by (simp add: at_solve_u e)
qed

lemma later_call_dG:
  "prev_dG (later_call solve s g) =
     (prev_dG (at_solve solve s g))[nat ((col_idx s + 1) smod m_win s) := vneg g]"
  by (simp add: later_call_at_solve advance_def Let_def)

lemma later_call_scale_at_solve:
  "dF_scale (later_call solve s g) = dF_scale (at_solve solve s g)"
  by (simp add: later_call_at_solve)

lemma agree_later:
  assumes v: "valid_state s" and v': "valid_state s'" and a: "window_agree s s'"
    and it: "0 < iter s" and g: "length g = nat (dim_u s)"
  shows "window_agree ((later_call solve s g)\<lparr>iter := iter s + 1\<rparr>)
           ((later_call solve s' g)\<lparr>iter := iter s' + 1\<rparr>)"
proof -
  let ?t = "later_call solve s g" and ?t' = "later_call solve s' g"
  let ?c' = "nat (iter s mod m_win s)"
  have e: "col_idx s' = col_idx s" "m_k s' = m_k s" "iter s' = iter s"
    "dim_u s' = dim_u s" "current_u s' = current_u s" "m_win s' = m_win s"
    using a by (simp_all add: window_agree_def m_k_def)
  have it': "0 < iter s'" and g': "length g = nat (dim_u s')"
    using it g e by simp_all
  have m: "0 < m_win s" using v by (simp add: valid_state_def)
  have c': "?c' < nat (m_win s)" using m by simp
  note sh = at_solve_shape [OF v it g, of solve] and sh' = at_solve_shape [OF v' it' g', of solve]
  note ci = later_col_idx [OF v it] and ci' = later_col_idx [OF v' it']
  have k': "m_k (?t\<lparr>iter := iter s + 1\<rparr>) = min (m_win s) (iter s + 1)"
    by (simp add: m_k_def later_call_fields)
  have cols: "prev_dF ?t ! j = prev_dF ?t' ! j \<and> prev_dG ?t ! j = prev_dG ?t' ! j"
    if j: "j < nat (min (m_win s) (iter s + 1))" for j
  proof (cases "j = ?c'")
    case True
    with c' sh sh' show ?thesis
      by (simp add: later_call_dF later_call_dG ci ci' e)
  next
    case False
    with j have "j < nat (m_k s)" by (intro window_step [OF v it])
    from agree_at_solve(1,2) [OF v v' a it g this, of solve] False show ?thesis
      by (simp add: later_call_dF later_call_dG ci ci' e)
  qed
  have sc: "dF_scale ?t ! j = dF_scale ?t' ! j"
    if "j < nat (min (m_win s) (iter s + 1))" "j \<noteq> ?c'" for j
  proof -
    from that have "j < nat (m_k s)" by (intro window_step [OF v it])
    from agree_at_solve(3) [OF v v' a it g this, of solve] show ?thesis
      by (simp add: later_call_scale_at_solve)
  qed
  have M: "M_gram ?t ! j ! i = M_gram ?t' ! j ! i"
    if "i < nat (min (m_win s) (iter s + 1))" "i \<noteq> ?c'"
      "j < nat (min (m_win s) (iter s + 1))" "j \<noteq> ?c'" for i j
  proof -
    from that have "i < nat (m_k s)" "j < nat (m_k s)"
      by (auto intro: window_step [OF v it])
    from agree_at_solve_M [OF v v' a it g this, of solve] show ?thesis
      by (simp add: later_call_M)
  qed
  have u: "current_u ?t = current_u ?t'" by (rule agree_later_u [OF v v' a it g])
  show ?thesis
    unfolding window_agree_def k'
    using cols sc M u by (simp add: later_call_fields ci e)
qed

lemma agree_compute:
  assumes v: "valid_state s" and v': "valid_state s'" and a: "window_agree s s'"
    and g: "length g = nat (dim_u s)"
  shows "\<exists>t t'. compute solve s g = Inr t \<and> compute solve s' g = Inr t' \<and>
           current_u t = current_u t' \<and> window_agree t t' \<and>
           valid_state t \<and> valid_state t' \<and> dim_u t = dim_u s"
proof -
  have e: "col_idx s' = col_idx s" "m_k s' = m_k s" "iter s' = iter s"
    "dim_u s' = dim_u s" "current_u s' = current_u s" "m_win s' = m_win s"
    using a by (simp_all add: window_agree_def m_k_def)
  have g': "length g = nat (dim_u s')" using g e by simp
  have d: "0 \<le> dim_u s" "0 \<le> dim_u s'" and m: "0 < m_win s"
    using v v' by (simp_all add: valid_state_def)
  obtain t where t: "compute solve s g = Inr t" "valid_state t"
    using valid_compute [OF v g] by blast
  obtain t' where t': "compute solve s' g = Inr t'" "valid_state t'"
    using valid_compute [OF v' g'] by blast
  show ?thesis
  proof (cases "iter s = 0")
    case True
    note len = valid_lengths [OF v] and len' = valid_lengths [OF v']
    have c: "col_idx s = 0" using v True by (simp add: valid_state_def)
    have t1: "t = s\<lparr>current_F := vsub g (current_u s),
           prev_dF := (prev_dF s)[0 := vneg (vsub g (current_u s))],
           prev_dG := (prev_dG s)[0 := vneg g], current_u := g, iter := 1\<rparr>"
      using t(1) compute_first [OF True d(1) g, of solve] by simp
    have t2: "t' = s'\<lparr>current_F := vsub g (current_u s'),
           prev_dF := (prev_dF s')[0 := vneg (vsub g (current_u s'))],
           prev_dG := (prev_dG s')[0 := vneg g], current_u := g, iter := 1\<rparr>"
      using t'(1) compute_first [of s' g solve] True d(2) g' e by simp
    have "window_agree t t'"
      using m len len' c by (simp add: window_agree_def t1 t2 e m_k_def)
    with t t' t1 t2 show ?thesis by simp
  next
    case False
    then have it: "0 < iter s" "0 < iter s'" using v e by (simp_all add: valid_state_def)
    have t1: "t = (later_call solve s g)\<lparr>iter := iter s + 1\<rparr>"
      using t(1) compute_later [OF it(1) d(1) g, of solve] by simp
    have t2: "t' = (later_call solve s' g)\<lparr>iter := iter s' + 1\<rparr>"
      using t'(1) compute_later [OF it(2) d(2) g', of solve] by simp
    have "window_agree t t'"
      unfolding t1 t2 by (rule agree_later [OF v v' a it(1) g])
    moreover have "current_u t = current_u t'"
      using agree_later_u [OF v v' a it(1) g, of solve] by (simp add: t1 t2)
    ultimately show ?thesis using t t' by (simp add: t1 later_call_fields)
  qed
qed

lemma agree_replace:
  "window_agree s s' \<Longrightarrow> window_agree (s\<lparr>current_u := u\<rparr>) (s'\<lparr>current_u := u\<rparr>)"
  by (simp add: window_agree_def m_k_def)

lemma agree_run:
  assumes "valid_state s" "valid_state s'" "window_agree s s'" "calls_ok (nat (dim_u s)) cs"
  shows "\<exists>outs. run solve s cs = Inr outs \<and> run solve s' cs = Inr outs"
  using assms
proof (induction cs arbitrary: s s')
  case Nil
  then show ?case by simp
next
  case (Cons c cs)
  have d: "dim_u s' = dim_u s" using Cons.prems(3) by (simp add: window_agree_def)
  show ?case
  proof (cases c)
    case (Compute g)
    with Cons.prems(4) have g: "length g = nat (dim_u s)" and cs: "calls_ok (nat (dim_u s)) cs"
      by (simp_all add: calls_ok_def)
    from agree_compute [OF Cons.prems(1-3) g, of solve]
    obtain t t' where t: "compute solve s g = Inr t" "compute solve s' g = Inr t'"
      "current_u t = current_u t'" "window_agree t t'" "valid_state t" "valid_state t'"
      "dim_u t = dim_u s"
      by blast
    from Cons.IH [OF t(5,6,4)] cs t(7)
    obtain outs where "run solve t cs = Inr outs" "run solve t' cs = Inr outs" by auto
    with t Compute show ?thesis by simp
  next
    case (Replace u)
    with Cons.prems(4) have u: "length u = nat (dim_u s)" and cs: "calls_ok (nat (dim_u s)) cs"
      by (simp_all add: calls_ok_def)
    have u': "length u = nat (dim_u s')" using u d by simp
    note r = valid_replace [OF Cons.prems(1) u] and r' = valid_replace [OF Cons.prems(2) u']
    from Cons.IH [of "s\<lparr>current_u := u\<rparr>" "s'\<lparr>current_u := u\<rparr>"] r r'
      agree_replace [OF Cons.prems(3)] cs
    obtain outs where "run solve (s\<lparr>current_u := u\<rparr>) cs = Inr outs"
      "run solve (s'\<lparr>current_u := u\<rparr>) cs = Inr outs" by auto
    with r r' Replace show ?thesis by simp
  qed
qed

text \<open>
  C4. Take a state \<open>s\<close> reached after \<^verbatim>\<open>init\<close> and any state \<open>s'\<close> of the same sizes that is the
  same as \<open>s\<close> up to the slots beyond the window: the columns of the histories, the scales
  and the rows and columns of the Gram matrix at an index \<open>m_k = min(m, iter)\<close> or beyond may
  hold anything. Then \<^verbatim>\<open>compute(g)\<close> returns the same vector on both, and so does every
  \<^verbatim>\<open>compute\<close> of every further sequence of calls.
\<close>

theorem stale_slots_do_not_matter:
  assumes "initialised solve s" and "valid_state s'" and "same_window s s'"
    and "length g = nat (dim_u s)"
  shows "(\<exists>t t'. compute solve s g = Inr t \<and> compute solve s' g = Inr t' \<and>
            current_u t = current_u t') \<and>
         (\<forall>cs. calls_ok (nat (dim_u s)) cs \<longrightarrow>
            (\<exists>outs. run solve s cs = Inr outs \<and> run solve s' cs = Inr outs))"
proof -
  have v: "valid_state s" using assms(1) by (rule initialised_valid)
  have a: "window_agree s s'" using assms(3) by (rule same_window_agree)
  from agree_compute [OF v assms(2) a assms(4), of solve]
  have "\<exists>t t'. compute solve s g = Inr t \<and> compute solve s' g = Inr t' \<and>
            current_u t = current_u t'"
    by blast
  then show ?thesis
    using agree_run [OF v assms(2) a] by blast
qed

theorem stale_slots_do_not_matter_witness:
  "initialised example_solver example_second \<and> valid_state example_second_corrupted \<and>
   same_window example_second example_second_corrupted \<and>
   length [3::real] = nat (dim_u example_second) \<and>
   calls_ok (nat (dim_u example_second)) [Compute [3], Replace [0], Compute [2]] \<and>
   (\<exists>t t'. compute example_solver example_second [3] = Inr t \<and>
       compute example_solver example_second_corrupted [3] = Inr t' \<and>
       current_u t = current_u t') \<and>
   (\<exists>outs. run example_solver example_second [Compute [3], Replace [0], Compute [2]] = Inr outs \<and>
      run example_solver example_second_corrupted [Compute [3], Replace [0], Compute [2]] =
        Inr outs)"
proof -
  have v: "valid_state example_second_corrupted"
    by (simp add: valid_state_def example_second_corrupted_def is_mat_def)
  have w: "same_window example_second example_second_corrupted"
    by (simp add: same_window_def example_second_def example_second_corrupted_def m_k_def)
  have c: "calls_ok (nat (dim_u example_second)) [Compute [3], Replace [0], Compute [2]]"
    by (simp add: calls_ok_def example_second_def)
  from stale_slots_do_not_matter [OF example_second_initialised v w example_second_facts(2)]
    example_second_initialised [of example_solver] v w example_second_facts(2) c
  show ?thesis by blast
qed

lemma init_fields:
  assumes "0 < m" "0 \<le> d" "length u0 = nat d"
  shows "\<exists>s. init mem s0 m d u0 = Inr s \<and> current_u s = u0 \<and> iter s = 0 \<and>
           col_idx s = 0 \<and> m_win s = m \<and> dim_u s = d \<and> valid_state s \<and>
           length (current_F s) = nat d"
proof -
  obtain s where s: "init mem s0 m d u0 = Inr s"
    using assms by (simp add: init_def Eigen_Map_def)
  have "valid_state s" using s assms(3) by (rule valid_init)
  with s assms show ?thesis by (auto simp: init_def Eigen_Map_def)
qed

lemma agree_fresh:
  assumes "valid_state s" "valid_state s'" "iter s = 0" "iter s' = 0"
    "m_win s = m_win s'" "dim_u s = dim_u s'" "current_u s = current_u s'"
  shows "window_agree s s'"
  using assms by (simp add: window_agree_def m_k_def valid_state_def)

text \<open>
  C10. \<^verbatim>\<open>init(m, d, u0)\<close> on an object in any state \<open>s0\<close>, so also after any number of calls,
  and whatever newly allocated storage holds: the current iterate is \<open>u0\<close>, the counter and
  the write index are \<open>0\<close>, the buffers have the sizes of \<open>(d, m)\<close>, the next
  \<^verbatim>\<open>compute(g)\<close> returns \<open>g\<close>, and every further sequence of calls returns what it returns on
  a newly constructed object after the same \<^verbatim>\<open>init\<close>: what the buffers held before has no
  influence.
\<close>

theorem init_resets:
  assumes "0 < m" and "0 \<le> d" and "length u0 = nat d"
  shows "\<exists>s. init mem s0 m d u0 = Inr s \<and>
           current_u s = u0 \<and> iter s = 0 \<and> col_idx s = 0 \<and> m_win s = m \<and> dim_u s = d \<and>
           length (current_F s) = nat d \<and>
           is_mat (nat d) (nat m) (prev_dG s) \<and> is_mat (nat d) (nat m) (prev_dF s) \<and>
           is_mat (nat m) (nat m) (M_gram s) \<and>
           length (theta s) = nat m \<and> length (dF_scale s) = nat m \<and>
           (\<forall>g. length g = nat d \<longrightarrow>
              (\<exists>s'. compute solve s g = Inr s' \<and> current_u s' = g)) \<and>
           (\<forall>mem' cs. calls_ok (nat d) cs \<longrightarrow>
              (\<exists>s1 outs. init mem' AndersonAcceleration_new m d u0 = Inr s1 \<and>
                 run solve s cs = Inr outs \<and> run solve s1 cs = Inr outs))"
proof -
  from init_fields [OF assms, of mem s0]
  obtain s where s: "init mem s0 m d u0 = Inr s" "current_u s = u0" "iter s = 0"
    "col_idx s = 0" "m_win s = m" "dim_u s = d" "valid_state s" "length (current_F s) = nat d"
    by blast
  have first: "\<exists>s'. compute solve s g = Inr s' \<and> current_u s' = g" if "length g = nat d" for g
    using compute_first [of s g solve] s that assms(2) by simp
  have rerun: "\<exists>s1 outs. init mem' AndersonAcceleration_new m d u0 = Inr s1 \<and>
                 run solve s cs = Inr outs \<and> run solve s1 cs = Inr outs"
    if cs: "calls_ok (nat d) cs" for mem' cs
  proof -
    from init_fields [OF assms, of mem' AndersonAcceleration_new]
    obtain s1 where s1: "init mem' AndersonAcceleration_new m d u0 = Inr s1"
      "current_u s1 = u0" "iter s1 = 0" "m_win s1 = m" "dim_u s1 = d" "valid_state s1"
      by blast
    have "window_agree s s1"
      using s s1 by (intro agree_fresh) simp_all
    from agree_run [OF s(7) s1(6) this, of cs solve] cs s(6) s1(1) show ?thesis by auto
  qed
  from s first rerun show ?thesis
    by (intro exI [of _ s]) (simp add: valid_state_def)
qed

theorem init_resets_witness:
  "(0::int) < 2 \<and> (0::int) \<le> 1 \<and> length [4::real] = nat 1 \<and>
   (\<exists>s. init example_memory example_third 2 1 [4] = Inr s \<and>
      current_u s = [4] \<and> iter s = 0 \<and> col_idx s = 0 \<and> m_win s = 2 \<and> dim_u s = 1 \<and>
      length (current_F s) = nat 1 \<and>
      is_mat (nat 1) (nat 2) (prev_dG s) \<and> is_mat (nat 1) (nat 2) (prev_dF s) \<and>
      is_mat (nat 2) (nat 2) (M_gram s) \<and>
      length (theta s) = nat 2 \<and> length (dF_scale s) = nat 2 \<and>
      length [5::real] = nat 1 \<and>
      (\<exists>s'. compute example_solver s [5] = Inr s' \<and> current_u s' = [5]) \<and>
      calls_ok (nat 1) [Compute [5], Replace [0], Compute [2]] \<and>
      (\<exists>s1 outs. init example_memory AndersonAcceleration_new 2 1 [4] = Inr s1 \<and>
         run example_solver s [Compute [5], Replace [0], Compute [2]] = Inr outs \<and>
         run example_solver s1 [Compute [5], Replace [0], Compute [2]] = Inr outs))"
proof -
  have c: "calls_ok (nat 1) [Compute [5], Replace [0], Compute [2]]"
    by (simp add: calls_ok_def)
  have h: "(0::int) < 2" "(0::int) \<le> 1" "length [4::real] = nat 1" "length [5::real] = nat 1"
    by simp_all
  from init_resets [OF h(1-3), of example_memory example_third example_solver] c h
  show ?thesis by blast
qed

section \<open>The identity as driving map\<close>

lemma vadd_vneg_nth: "i < length u \<Longrightarrow> vadd (vneg u) u ! i = 0"
  by (simp add: vadd_def vneg_def)

lemma at_rest_later:
  assumes r: "at_rest u0 s" and it: "0 < iter s"
  shows "current_u (later_call solve s u0) = u0"
    and "at_rest u0 ((later_call solve s u0)\<lparr>iter := iter s + 1\<rparr>)"
proof -
  have v: "valid_state s" and u: "current_u s = u0"
    and seed: "prev_dG s ! nat (col_idx s) = vneg u0"
    and zero: "\<And>i j. j < nat (m_k s) \<Longrightarrow> j \<noteq> nat (col_idx s) \<Longrightarrow> i < length u0 \<Longrightarrow>
                 prev_dG s ! j ! i = 0"
    using r it by (simp_all add: at_rest_def)
  note len = valid_lengths [OF v]
  note w = valid_window [OF v it]
  have g: "length u0 = nat (dim_u s)" using len u by simp
  let ?c = "nat (col_idx s)"
  let ?dG = "(prev_dG s)[?c := vadd (prev_dG s ! ?c) u0]"
  let ?t = "later_call solve s u0"
  have dG0: "?dG ! j ! i = 0" if j: "j < nat (m_k s)" and i: "i < length u0" for i j
  proof (cases "j = ?c")
    case True
    with len i show ?thesis by (simp add: seed vadd_vneg_nth)
  next
    case False
    with zero [OF j _ i] show ?thesis by simp
  qed
  have lu: "length (current_u ?t) = length u0"
    by (simp add: later_call_u g)
  have nth: "current_u ?t ! i = u0 ! i" if i: "i < length u0" for i
  proof -
    have "(\<Sum>j < nat (m_k s). ?dG ! j ! i * (theta ?t ! j / dF_scale ?t ! j)) = 0"
      using dG0 [OF _ i] by (intro sum.neutral) simp
    with later_call_u_nth [OF v it g i, of solve] show ?thesis by simp
  qed
  show cu: "current_u ?t = u0"
    using lu nth by (intro nth_equalityI) simp_all
  have v': "valid_state (?t\<lparr>iter := iter s + 1\<rparr>)"
    by (rule valid_later [OF v it g])
  have m: "0 < m_win s" using v by (simp add: valid_state_def)
  let ?c' = "nat (iter s mod m_win s)"
  have c': "?c' < length ?dG" using len m by simp
  have dG': "prev_dG ?t = ?dG[?c' := vneg u0]"
    by (simp add: later_call_dG at_solve_dG later_col_idx [OF v it])
  have seed': "prev_dG ?t ! ?c' = vneg u0"
    using c' by (simp add: dG')
  have zero': "prev_dG ?t ! j ! i = 0"
    if "j < nat (min (m_win s) (iter s + 1))" "j \<noteq> ?c'" "i < length u0" for i j
  proof -
    from that(1,2) have "j < nat (m_k s)" by (rule window_step [OF v it])
    from dG0 [OF this that(3)] that(2) show ?thesis by (simp add: dG')
  qed
  show "at_rest u0 (?t\<lparr>iter := iter s + 1\<rparr>)"
    unfolding at_rest_def
    using v' cu seed' zero'
    by (simp add: later_call_fields later_col_idx [OF v it] m_k_def)
qed

lemma at_rest_compute:
  assumes r: "at_rest u0 s"
  shows "\<exists>t. compute solve s u0 = Inr t \<and> current_u t = u0 \<and> at_rest u0 t"
proof (cases "iter s = 0")
  case True
  have v: "valid_state s" and u: "current_u s = u0" using r by (simp_all add: at_rest_def)
  note len = valid_lengths [OF v]
  have g: "length u0 = nat (dim_u s)" using len u by simp
  have d: "0 \<le> dim_u s" and m: "0 < m_win s" and c: "col_idx s = 0"
    using v True by (simp_all add: valid_state_def)
  let ?t = "s\<lparr>current_F := vsub u0 (current_u s),
           prev_dF := (prev_dF s)[0 := vneg (vsub u0 (current_u s))],
           prev_dG := (prev_dG s)[0 := vneg u0], current_u := u0, iter := 1\<rparr>"
  have t: "compute solve s u0 = Inr ?t" by (rule compute_first [OF True d g])
  obtain t' where "compute solve s u0 = Inr t'" "valid_state t'"
    using valid_compute [OF v g] by blast
  with t have vt: "valid_state ?t" by simp
  have "at_rest u0 ?t"
    unfolding at_rest_def using vt len m c by (simp add: m_k_def)
  with t show ?thesis by simp
next
  case False
  have v: "valid_state s" and u: "current_u s = u0" using r by (simp_all add: at_rest_def)
  have g: "length u0 = nat (dim_u s)" using valid_lengths [OF v] u by simp
  have it: "0 < iter s" and d: "0 \<le> dim_u s" using v False by (simp_all add: valid_state_def)
  from compute_later [OF it d g, of solve] at_rest_later [OF r it, of solve]
  show ?thesis by simp
qed

lemma at_rest_drive:
  assumes "at_rest u0 s"
  shows "\<exists>t. drive solve (\<lambda>u. u) (replicate n None) s = Inr t \<and> at_rest u0 t"
  using assms
proof (induction n arbitrary: s)
  case 0
  then show ?case by simp
next
  case (Suc n)
  then have u: "current_u s = u0" by (simp add: at_rest_def)
  from at_rest_compute [OF Suc.prems, of solve]
  obtain t where t: "compute solve s u0 = Inr t" "at_rest u0 t" by blast
  from Suc.IH [OF t(2)] t(1) u show ?case by simp
qed

lemma sum_list_all_zero: "(\<And>x. x \<in> set xs \<Longrightarrow> x = 0) \<Longrightarrow> sum_list xs = (0::real)"
  by (induction xs) simp_all

lemma dot_zero_right: "is_zero b \<Longrightarrow> dot a b = 0"
  unfolding dot_def is_zero_def
  by (rule sum_list_all_zero) (auto dest: set_zip_rightD)

lemma dot_zero_left: "is_zero a \<Longrightarrow> dot a b = 0"
  unfolding dot_def is_zero_def
  by (rule sum_list_all_zero) (auto dest: set_zip_leftD)

lemma is_zero_vsub_self: "is_zero (vsub u u)"
  by (auto simp: is_zero_def vsub_def zip_same)

lemma is_zero_vadd: "is_zero a \<Longrightarrow> is_zero b \<Longrightarrow> is_zero (vadd a b)"
  by (auto simp: is_zero_def vadd_def elim!: in_set_zipE)

lemma is_zero_vdiv: "is_zero a \<Longrightarrow> is_zero (vdiv a x)"
  by (auto simp: is_zero_def vdiv_def)

lemma is_zero_vneg: "is_zero a \<Longrightarrow> is_zero (vneg a)"
  by (auto simp: is_zero_def vneg_def)

lemma vnorm_zero: "is_zero a \<Longrightarrow> vnorm a = 0"
  by (simp add: vnorm_def squaredNorm_def dot_zero_left)

lemma is_zero_transpose_times:
  assumes "is_zero v"
  shows "is_zero (transpose_times A v)"
proof -
  have "dot col v = 0" for col using assms by (rule dot_zero_right)
  then show ?thesis by (simp add: is_zero_def transpose_times_def)
qed

lemma residuals_zero_later:
  assumes r: "residuals_zero s" and z: "zero_for_zero solve" and it: "0 < iter s"
  shows "current_u (later_call solve s (current_u s)) = current_u s"
    and "residuals_zero ((later_call solve s (current_u s))\<lparr>iter := iter s + 1\<rparr>)"
proof -
  let ?u = "current_u s"
  let ?t = "later_call solve s ?u"
  let ?a = "at_solve solve s ?u"
  let ?c = "nat (col_idx s)"
  let ?k = "nat (m_k s)"
  have v: "valid_state s"
    and zero: "\<And>j. j < ?k \<Longrightarrow> is_zero (prev_dF s ! j)"
    using r by (simp_all add: residuals_zero_def)
  note len = valid_lengths [OF v]
  note w = valid_window [OF v it]
  have g: "length ?u = nat (dim_u s)" using len by simp
  have F: "is_zero (vsub ?u ?u)" by (rule is_zero_vsub_self)
  have dF: "is_zero (prev_dF ?a ! j)" if j: "j < ?k" for j
  proof -
    have "j < nat (m_win s)" using j w by linarith
    note n = at_solve_nth(1) [OF v this, of solve ?u]
    show ?thesis
    proof (cases "j = ?c")
      case True
      have "is_zero (vadd (prev_dF s ! j) (vsub ?u ?u))"
        using zero [OF j] F by (rule is_zero_vadd)
      then show ?thesis unfolding n using True by (simp add: is_zero_vdiv)
    next
      case False
      then show ?thesis unfolding n using zero [OF j] by simp
    qed
  qed
  have th: "theta ?a ! j = 0" if j: "j < ?k" for j
  proof (cases "m_k s = 1")
    case True
    have "vnorm (prev_dF ?a ! ?c) = 0" using dF [OF w(3)] by (rule vnorm_zero)
    with True eps_pos show ?thesis by (simp add: at_solve_theta [OF v it g j])
  next
    case False
    let ?B = "leading_block (M_gram ?a) ?k"
    let ?b = "transpose_times (take ?k (prev_dF ?a)) (vsub ?u ?u)"
    have "length (M_gram ?a) = nat (m_win s)"
      using at_solve_shape(5) [OF v it g] by (rule is_mat_length)
    then have "length ?B = ?k" using w by (simp add: length_leading_block)
    then have "cod_solve solve ?B ?b ! j = solve ?B ?b j"
      using j by (simp add: cod_solve_def)
    moreover have "is_zero ?b" using F by (rule is_zero_transpose_times)
    ultimately have "cod_solve solve ?B ?b ! j = 0"
      using z by (simp add: zero_for_zero_def)
    with False show ?thesis by (simp add: at_solve_theta [OF v it g j])
  qed
  have tt: "theta ?t = theta ?a" by (simp add: later_call_theta at_solve_def)
  have lu: "length (current_u ?t) = length ?u"
    by (simp add: later_call_u g)
  have nth: "current_u ?t ! i = ?u ! i" if i: "i < length ?u" for i
  proof -
    have "(\<Sum>j < ?k. (prev_dG s)[?c := vadd (prev_dG s ! ?c) ?u] ! j ! i *
             (theta ?t ! j / dF_scale ?t ! j)) = 0"
      using th by (intro sum.neutral) (simp add: tt)
    with later_call_u_nth [OF v it g i, of solve] show ?thesis by simp
  qed
  show "current_u ?t = ?u"
    using lu nth by (intro nth_equalityI) simp_all
  have v': "valid_state (?t\<lparr>iter := iter s + 1\<rparr>)"
    by (rule valid_later [OF v it g])
  have m: "0 < m_win s" using v by (simp add: valid_state_def)
  let ?c' = "nat (iter s mod m_win s)"
  have dF': "prev_dF ?t = (prev_dF ?a)[?c' := vneg (vsub ?u ?u)]"
    by (simp add: later_call_dF later_col_idx [OF v it])
  have lF: "?c' < length (prev_dF ?a)"
    using at_solve_shape(1) [OF v it g, of solve] m by simp
  have post: "is_zero (prev_dF ?t ! j)" if "j < nat (min (m_win s) (iter s + 1))" for j
  proof (cases "j = ?c'")
    case True
    with lF F show ?thesis by (simp add: dF' is_zero_vneg)
  next
    case False
    with that have "j < ?k" by (intro window_step [OF v it])
    from dF [OF this] False show ?thesis by (simp add: dF')
  qed
  show "residuals_zero (?t\<lparr>iter := iter s + 1\<rparr>)"
    unfolding residuals_zero_def using v' post
    by (simp add: m_k_def later_call_fields)
qed

lemma residuals_zero_compute:
  assumes r: "residuals_zero s" and z: "zero_for_zero solve"
  shows "\<exists>t. compute solve s (current_u s) = Inr t \<and> current_u t = current_u s \<and>
           residuals_zero t \<and> dim_u t = dim_u s"
proof (cases "iter s = 0")
  case True
  have v: "valid_state s" using r by (simp add: residuals_zero_def)
  note len = valid_lengths [OF v]
  have g: "length (current_u s) = nat (dim_u s)" using len by simp
  have d: "0 \<le> dim_u s" and m: "0 < m_win s"
    using v by (simp_all add: valid_state_def)
  let ?u = "current_u s"
  let ?t = "s\<lparr>current_F := vsub ?u ?u,
           prev_dF := (prev_dF s)[0 := vneg (vsub ?u ?u)],
           prev_dG := (prev_dG s)[0 := vneg ?u], current_u := ?u, iter := 1\<rparr>"
  have t: "compute solve s ?u = Inr ?t" by (rule compute_first [OF True d g])
  obtain t' where "compute solve s ?u = Inr t'" "valid_state t'"
    using valid_compute [OF v g] by blast
  with t have vt: "valid_state ?t" by simp
  have "is_zero (vneg (vsub ?u ?u))" by (intro is_zero_vneg is_zero_vsub_self)
  then have "residuals_zero ?t"
    unfolding residuals_zero_def using vt len m by (simp add: m_k_def)
  with t show ?thesis by simp
next
  case False
  have v: "valid_state s" using r by (simp add: residuals_zero_def)
  have g: "length (current_u s) = nat (dim_u s)" using valid_lengths [OF v] by simp
  have it: "0 < iter s" and d: "0 \<le> dim_u s" using v False by (simp_all add: valid_state_def)
  from compute_later [OF it d g, of solve] residuals_zero_later [OF r z it]
  show ?thesis by (simp add: later_call_fields)
qed

lemma residuals_zero_drive:
  assumes "residuals_zero s" "zero_for_zero solve" "steps_ok (nat (dim_u s)) rs"
  shows "\<exists>t. drive solve (\<lambda>u. u) rs s = Inr t \<and> residuals_zero t"
  using assms
proof (induction rs arbitrary: s)
  case Nil
  then show ?case by simp
next
  case (Cons r rs)
  have v: "valid_state s" using Cons.prems(1) by (simp add: residuals_zero_def)
  have rs: "steps_ok (nat (dim_u s)) rs" using Cons.prems(3) by (simp add: steps_ok_def)
  obtain s1 where s1: "(case r of None \<Rightarrow> Inr s | Some u \<Rightarrow> replace s u) = Inr s1"
    "residuals_zero s1" "dim_u s1 = dim_u s"
  proof (cases r)
    case None
    with Cons.prems(1) that show ?thesis by simp
  next
    case (Some u)
    with Cons.prems(3) have "length u = nat (dim_u s)" by (simp add: steps_ok_def)
    from valid_replace [OF v this] Cons.prems(1) Some that [of "s\<lparr>current_u := u\<rparr>"]
    show ?thesis by (simp add: residuals_zero_def m_k_def)
  qed
  from residuals_zero_compute [OF s1(2) Cons.prems(2)]
  obtain s2 where s2: "compute solve s1 (current_u s1) = Inr s2" "residuals_zero s2"
    "dim_u s2 = dim_u s1" by blast
  from Cons.IH [OF s2(2) Cons.prems(2)] rs s1(3) s2(3)
  obtain t where "drive solve (\<lambda>u. u) rs s2 = Inr t" "residuals_zero t" by auto
  with s1(1) s2(1) show ?case by simp
qed

text \<open>
  C8. The driving map is the identity: after \<^verbatim>\<open>init(m, d, u0)\<close>, each call of \<^verbatim>\<open>compute\<close> is
  handed the current iterate, so that every residual is zero. Then every call returns the
  vector it was handed, whatever the number \<open>n\<close> of calls before it, and so on the path of
  the first call, on the path \<open>m_k = 1\<close> and on the general path; this holds for every
  solver, because the increments of the iterate are zero. When the caller also replaces the
  iterate between the calls, the same holds for a solver that answers a zero right-hand
  side with the zero vector.
\<close>

theorem identity_map_is_not_perturbed:
  assumes "0 < m" and "0 \<le> d" and "length u0 = nat d"
  shows "\<exists>s. init mem s0 m d u0 = Inr s \<and>
           (\<forall>n. \<exists>t t'. drive solve (\<lambda>u. u) (replicate n None) s = Inr t \<and>
                   compute solve t (current_u t) = Inr t' \<and>
                   current_u t' = current_u t) \<and>
           (zero_for_zero solve \<longrightarrow>
              (\<forall>rs. steps_ok (nat d) rs \<longrightarrow>
                 (\<exists>t t'. drive solve (\<lambda>u. u) rs s = Inr t \<and>
                    compute solve t (current_u t) = Inr t' \<and>
                    current_u t' = current_u t)))"
proof -
  from init_fields [OF assms, of mem s0]
  obtain s where s: "init mem s0 m d u0 = Inr s" "current_u s = u0" "iter s = 0"
    "dim_u s = d" "valid_state s"
    by blast
  have r: "at_rest u0 s"
    using s by (simp add: at_rest_def m_k_def)
  have A: "\<exists>t t'. drive solve (\<lambda>u. u) (replicate n None) s = Inr t \<and>
                   compute solve t (current_u t) = Inr t' \<and>
                   current_u t' = current_u t" for n
  proof -
    from at_rest_drive [OF r, of solve n]
    obtain t where t: "drive solve (\<lambda>u. u) (replicate n None) s = Inr t" "at_rest u0 t"
      by blast
    then have u: "current_u t = u0" by (simp add: at_rest_def)
    from at_rest_compute [OF t(2), of solve] t(1) u show ?thesis by auto
  qed
  have q: "residuals_zero s"
    using s by (simp add: residuals_zero_def m_k_def)
  have B: "\<exists>t t'. drive solve (\<lambda>u. u) rs s = Inr t \<and>
                    compute solve t (current_u t) = Inr t' \<and>
                    current_u t' = current_u t"
    if z: "zero_for_zero solve" and rs: "steps_ok (nat d) rs" for rs
  proof -
    from residuals_zero_drive [OF q z, of rs] rs s(4)
    obtain t where t: "drive solve (\<lambda>u. u) rs s = Inr t" "residuals_zero t" by auto
    from residuals_zero_compute [OF t(2) z] t(1) show ?thesis by blast
  qed
  from s(1) A B show ?thesis by blast
qed

theorem identity_map_is_not_perturbed_witness:
  "(0::int) < 2 \<and> (0::int) \<le> 1 \<and> length [4::real] = nat 1 \<and>
   (\<exists>s. init example_memory AndersonAcceleration_new 2 1 [4] = Inr s \<and>
      (\<exists>t t'. drive example_solver (\<lambda>u. u) (replicate 3 None) s = Inr t \<and>
          compute example_solver t (current_u t) = Inr t' \<and>
          current_u t' = current_u t) \<and>
      zero_for_zero example_solver \<and> steps_ok (nat 1) [None, Some [2], None] \<and>
      (\<exists>t t'. drive example_solver (\<lambda>u. u) [None, Some [2], None] s = Inr t \<and>
          compute example_solver t (current_u t) = Inr t' \<and>
          current_u t' = current_u t))"
proof -
  have h: "(0::int) < 2" "(0::int) \<le> 1" "length [4::real] = nat 1" by simp_all
  have z: "zero_for_zero example_solver"
    by (simp add: zero_for_zero_def example_solver_def)
  have k: "steps_ok (nat 1) [None, Some [2], None]"
    by (simp add: steps_ok_def)
  from identity_map_is_not_perturbed [OF h, of example_memory AndersonAcceleration_new example_solver]
    h z k
  show ?thesis by blast
qed

end
